theory Spec2Isabelle
  imports Main "HOL-Library.Word" "HOL-Library.Multiset"
begin

section \<open>Memory model\<close>

text \<open>
  The C sources (\<^verbatim>\<open>list.c\<close>, \<^verbatim>\<open>list.h\<close>) are embedded over an explicit store.
  Pointers and \<^verbatim>\<open>unsigned long\<close> are 64-bit words (LP64); the null pointer is 0.
  Each struct type has a store of its own, a partial map from addresses to records;
  an address outside the store's domain is not allocated. Reading or writing through
  the null pointer or an unallocated address is undefined behaviour in C and is the
  result \<open>Inl Fault\<close> here. A loop whose end depends on the shape of the heap takes
  fuel and answers \<open>Inl OutOfFuel\<close> when it is used up.
\<close>

type_synonym ptr = "64 word"

abbreviation NULL :: ptr where
  "NULL \<equiv> 0"

datatype error = Fault | OutOfFuel

text \<open>\<^verbatim>\<open>struct list_node { prev; next; value }\<close>\<close>

record list_node =
  node_prev :: ptr
  node_next :: ptr
  node_value :: ptr

text \<open>\<^verbatim>\<open>struct list_iter { next; direction }\<close>\<close>

record list_iter =
  iter_next :: ptr
  iter_direction :: int

text \<open>
  \<^verbatim>\<open>struct list { head; tail; dup; free; match; len }\<close>. A callback is a function
  pointer that may be null: \<open>None\<close> is the null function pointer.
\<close>

record list_t =
  head :: ptr
  tail :: ptr
  dup :: "(ptr \<Rightarrow> ptr) option"
  free :: "(ptr \<Rightarrow> unit) option"
  match :: "(ptr \<Rightarrow> ptr \<Rightarrow> int) option"
  len :: "64 word"

text \<open>
  The memory: the three stores and two logs of the calls made to the callbacks:
  \<open>dup_log\<close> holds every value returned by the \<^verbatim>\<open>dup\<close> callback, \<open>free_log\<close> every
  value handed to the \<^verbatim>\<open>free\<close> callback, both in call order.
\<close>

record memory =
  nodes :: "ptr \<Rightarrow> list_node option"
  lists :: "ptr \<Rightarrow> list_t option"
  iters :: "ptr \<Rightarrow> list_iter option"
  dup_log :: "ptr list"
  free_log :: "ptr list"

definition START_HEAD :: int where
  "START_HEAD = 0"

definition START_TAIL :: int where
  "START_TAIL = 1"

text \<open>Dereferencing: the null pointer is never a valid address.\<close>

definition get_node :: "memory \<Rightarrow> ptr \<Rightarrow> list_node option" where
  "get_node m p = (if p = NULL then None else nodes m p)"

definition get_list :: "memory \<Rightarrow> ptr \<Rightarrow> list_t option" where
  "get_list m p = (if p = NULL then None else lists m p)"

definition get_iter :: "memory \<Rightarrow> ptr \<Rightarrow> list_iter option" where
  "get_iter m p = (if p = NULL then None else iters m p)"

text \<open>
  \<^verbatim>\<open>zmalloc.h\<close> is not among the sources. The pointer a call of \<^verbatim>\<open>zmalloc\<close> returns is
  an argument of the function that makes the call (\<open>NULL\<close> when the allocation fails).
  An allocator hands out an address that is in use by no live object:
\<close>

definition fresh :: "memory \<Rightarrow> ptr \<Rightarrow> bool" where
  "fresh m a \<longleftrightarrow> a \<noteq> NULL \<and> nodes m a = None \<and> lists m a = None \<and> iters m a = None"

text \<open>\<^verbatim>\<open>zfree\<close> of a node, a list or an iterator; freeing what is not allocated is a fault.\<close>

definition zfree_node :: "ptr \<Rightarrow> memory \<Rightarrow> error + memory" where
  "zfree_node p m =
     (case get_node m p of None \<Rightarrow> Inl Fault
      | Some _ \<Rightarrow> Inr (m\<lparr>nodes := (nodes m)(p := None)\<rparr>))"

definition zfree_list :: "ptr \<Rightarrow> memory \<Rightarrow> error + memory" where
  "zfree_list p m =
     (case get_list m p of None \<Rightarrow> Inl Fault
      | Some _ \<Rightarrow> Inr (m\<lparr>lists := (lists m)(p := None)\<rparr>))"

definition zfree_iter :: "ptr \<Rightarrow> memory \<Rightarrow> error + memory" where
  "zfree_iter p m =
     (case get_iter m p of None \<Rightarrow> Inl Fault
      | Some _ \<Rightarrow> Inr (m\<lparr>iters := (iters m)(p := None)\<rparr>))"

text \<open>Sequencing of steps that may fault.\<close>

definition bind :: "error + 'a \<Rightarrow> ('a \<Rightarrow> error + 'b) \<Rightarrow> error + 'b" where
  "bind r f = (case r of Inl e \<Rightarrow> Inl e | Inr x \<Rightarrow> f x)"

text \<open>The assignments \<^verbatim>\<open>p->next = q\<close> and \<^verbatim>\<open>p->prev = q\<close>.\<close>

definition set_next :: "ptr \<Rightarrow> ptr \<Rightarrow> memory \<Rightarrow> error + memory" where
  "set_next p q m =
     (case get_node m p of None \<Rightarrow> Inl Fault
      | Some nd \<Rightarrow> Inr (m\<lparr>nodes := (nodes m)(p \<mapsto> nd\<lparr>node_next := q\<rparr>)\<rparr>))"

definition set_prev :: "ptr \<Rightarrow> ptr \<Rightarrow> memory \<Rightarrow> error + memory" where
  "set_prev p q m =
     (case get_node m p of None \<Rightarrow> Inl Fault
      | Some nd \<Rightarrow> Inr (m\<lparr>nodes := (nodes m)(p \<mapsto> nd\<lparr>node_prev := q\<rparr>)\<rparr>))"

text \<open>Writing a whole list struct back.\<close>

definition put_list :: "ptr \<Rightarrow> list_t \<Rightarrow> memory \<Rightarrow> memory" where
  "put_list p l m = m\<lparr>lists := (lists m)(p \<mapsto> l)\<rparr>"

text \<open>\<^verbatim>\<open>if (list->free) list->free(value);\<close>\<close>

definition call_free :: "(ptr \<Rightarrow> unit) option \<Rightarrow> ptr \<Rightarrow> memory \<Rightarrow> memory" where
  "call_free fr v m =
     (case fr of None \<Rightarrow> m | Some f \<Rightarrow> m\<lparr>free_log := free_log m @ [v]\<rparr>)"

section \<open>The functions of list.c\<close>

text \<open>\<^verbatim>\<open>list_create\<close>; \<open>a\<close> is the answer of \<^verbatim>\<open>zmalloc\<close>.\<close>

definition list_create :: "ptr \<Rightarrow> memory \<Rightarrow> ptr \<times> memory" where
  "list_create a m =
     (if a = NULL then (NULL, m)
      else (a, put_list a
             \<lparr>head = NULL, tail = NULL, dup = None, free = None, match = None, len = 0\<rparr> m))"

text \<open>
  \<^verbatim>\<open>list_free\<close>: the loop \<^verbatim>\<open>while(len--)\<close> runs \<open>unat len\<close> times, reading
  \<^verbatim>\<open>current->next\<close>, calling the \<^verbatim>\<open>free\<close> callback on the value and freeing the node.
\<close>

fun list_free_loop :: "(ptr \<Rightarrow> unit) option \<Rightarrow> nat \<Rightarrow> ptr \<Rightarrow> memory \<Rightarrow> error + memory" where
  "list_free_loop fr 0 current m = Inr m"
| "list_free_loop fr (Suc k) current m =
     (case get_node m current of None \<Rightarrow> Inl Fault
      | Some nd \<Rightarrow>
          bind (zfree_node current (call_free fr (node_value nd) m))
            (list_free_loop fr k (node_next nd)))"

definition list_free :: "ptr \<Rightarrow> memory \<Rightarrow> error + memory" where
  "list_free list m =
     (case get_list m list of None \<Rightarrow> Inl Fault
      | Some l \<Rightarrow>
          bind (list_free_loop (free l) (unat (len l)) (head l) m) (zfree_list list))"

text \<open>\<^verbatim>\<open>list_add_head\<close>; \<open>node\<close> is the answer of \<^verbatim>\<open>zmalloc\<close>.\<close>

definition list_add_head :: "ptr \<Rightarrow> ptr \<Rightarrow> ptr \<Rightarrow> memory \<Rightarrow> error + (ptr \<times> memory)" where
  "list_add_head list v node m =
     (if node = NULL then Inr (NULL, m)
      else case get_list m list of None \<Rightarrow> Inl Fault
      | Some l \<Rightarrow>
          if len l = 0 then
            Inr (list, put_list list (l\<lparr>head := node, tail := node, len := len l + 1\<rparr>)
              (m\<lparr>nodes := (nodes m)(node \<mapsto>
                 \<lparr>node_prev = NULL, node_next = NULL, node_value = v\<rparr>)\<rparr>))
          else
            bind (set_prev (head l) node
                   (m\<lparr>nodes := (nodes m)(node \<mapsto>
                      \<lparr>node_prev = NULL, node_next = head l, node_value = v\<rparr>)\<rparr>))
              (\<lambda>m1. Inr (list, put_list list (l\<lparr>head := node, len := len l + 1\<rparr>) m1)))"

text \<open>\<^verbatim>\<open>list_add\<close> (add at the tail).\<close>

definition list_add :: "ptr \<Rightarrow> ptr \<Rightarrow> ptr \<Rightarrow> memory \<Rightarrow> error + (ptr \<times> memory)" where
  "list_add list v node m =
     (if node = NULL then Inr (NULL, m)
      else case get_list m list of None \<Rightarrow> Inl Fault
      | Some l \<Rightarrow>
          if len l = 0 then
            Inr (list, put_list list (l\<lparr>head := node, tail := node, len := len l + 1\<rparr>)
              (m\<lparr>nodes := (nodes m)(node \<mapsto>
                 \<lparr>node_prev = NULL, node_next = NULL, node_value = v\<rparr>)\<rparr>))
          else
            bind (set_next (tail l) node
                   (m\<lparr>nodes := (nodes m)(node \<mapsto>
                      \<lparr>node_prev = tail l, node_next = NULL, node_value = v\<rparr>)\<rparr>))
              (\<lambda>m1. Inr (list, put_list list (l\<lparr>tail := node, len := len l + 1\<rparr>) m1)))"

text \<open>
  \<^verbatim>\<open>list_insert\<close>. After the new node is filled in, \<^verbatim>\<open>node->prev\<close> and \<^verbatim>\<open>node->next\<close>
  are read back from memory, as the source does.
\<close>

definition list_insert ::
  "ptr \<Rightarrow> ptr \<Rightarrow> ptr \<Rightarrow> int \<Rightarrow> ptr \<Rightarrow> memory \<Rightarrow> error + (ptr \<times> memory)" where
  "list_insert list old_node v after node m =
     (if node = NULL then Inr (NULL, m)
      else case get_list m list of None \<Rightarrow> Inl Fault
      | Some l \<Rightarrow>
     (case get_node m old_node of None \<Rightarrow> Inl Fault
      | Some old \<Rightarrow>
          let nd = (if after \<noteq> 0
                    then \<lparr>node_prev = old_node, node_next = node_next old, node_value = v\<rparr>
                    else \<lparr>node_prev = node_prev old, node_next = old_node, node_value = v\<rparr>);
              l1 = (if after \<noteq> 0
                    then (if tail l = old_node then l\<lparr>tail := node\<rparr> else l)
                    else (if head l = old_node then l\<lparr>head := node\<rparr> else l));
              m1 = m\<lparr>nodes := (nodes m)(node \<mapsto> nd)\<rparr>
          in
          bind (case get_node m1 node of None \<Rightarrow> Inl Fault
                | Some n1 \<Rightarrow>
                    if node_prev n1 \<noteq> NULL then set_next (node_prev n1) node m1 else Inr m1)
            (\<lambda>m2.
          bind (case get_node m2 node of None \<Rightarrow> Inl Fault
                | Some n2 \<Rightarrow>
                    if node_next n2 \<noteq> NULL then set_prev (node_next n2) node m2 else Inr m2)
            (\<lambda>m3. Inr (list, put_list list (l1\<lparr>len := len l1 + 1\<rparr>) m3)))))"

text \<open>\<^verbatim>\<open>list_remove\<close>\<close>

definition list_remove :: "ptr \<Rightarrow> ptr \<Rightarrow> memory \<Rightarrow> error + memory" where
  "list_remove list node m =
     (case get_list m list of None \<Rightarrow> Inl Fault
      | Some l \<Rightarrow>
     (case get_node m node of None \<Rightarrow> Inl Fault
      | Some nd \<Rightarrow>
          bind (if node_prev nd \<noteq> NULL
                then bind (set_next (node_prev nd) (node_next nd) m) (\<lambda>m1. Inr (l, m1))
                else Inr (l\<lparr>head := node_next nd\<rparr>, m))
            (\<lambda>(l1, m1).
          bind (case get_node m1 node of None \<Rightarrow> Inl Fault
                | Some nd1 \<Rightarrow>
                    if node_next nd1 \<noteq> NULL
                    then bind (set_prev (node_next nd1) (node_prev nd1) m1) (\<lambda>m2. Inr (l1, m2))
                    else Inr (l1\<lparr>tail := node_prev nd1\<rparr>, m1))
            (\<lambda>(l2, m2).
          case get_node m2 node of None \<Rightarrow> Inl Fault
          | Some nd2 \<Rightarrow>
              bind (zfree_node node (call_free (free l2) (node_value nd2) m2))
                (\<lambda>m3. Inr (put_list list (l2\<lparr>len := len l2 - 1\<rparr>) m3))))))"

text \<open>\<^verbatim>\<open>list_iterator\<close>; \<open>iter\<close> is the answer of \<^verbatim>\<open>zmalloc\<close>.\<close>

definition list_iterator :: "ptr \<Rightarrow> int \<Rightarrow> ptr \<Rightarrow> memory \<Rightarrow> error + (ptr \<times> memory)" where
  "list_iterator list direction iter m =
     (if iter = NULL then Inr (NULL, m)
      else case get_list m list of None \<Rightarrow> Inl Fault
      | Some l \<Rightarrow>
          Inr (iter, m\<lparr>iters := (iters m)(iter \<mapsto>
                 \<lparr>iter_next = (if direction = START_HEAD then head l else tail l),
                  iter_direction = direction\<rparr>)\<rparr>))"

definition list_free_iterator :: "ptr \<Rightarrow> memory \<Rightarrow> error + memory" where
  "list_free_iterator iter m = zfree_iter iter m"

definition list_rewind :: "ptr \<Rightarrow> ptr \<Rightarrow> memory \<Rightarrow> error + memory" where
  "list_rewind list li m =
     (case get_list m list of None \<Rightarrow> Inl Fault
      | Some l \<Rightarrow>
     (case get_iter m li of None \<Rightarrow> Inl Fault
      | Some it \<Rightarrow>
          Inr (m\<lparr>iters := (iters m)(li \<mapsto>
                 it\<lparr>iter_next := head l, iter_direction := START_HEAD\<rparr>)\<rparr>)))"

definition list_rewind_tail :: "ptr \<Rightarrow> ptr \<Rightarrow> memory \<Rightarrow> error + memory" where
  "list_rewind_tail list li m =
     (case get_list m list of None \<Rightarrow> Inl Fault
      | Some l \<Rightarrow>
     (case get_iter m li of None \<Rightarrow> Inl Fault
      | Some it \<Rightarrow>
          Inr (m\<lparr>iters := (iters m)(li \<mapsto>
                 it\<lparr>iter_next := tail l, iter_direction := START_TAIL\<rparr>)\<rparr>)))"

text \<open>\<^verbatim>\<open>list_next\<close>: the cursor is moved before the current node is returned.\<close>

definition list_next :: "ptr \<Rightarrow> memory \<Rightarrow> error + (ptr \<times> memory)" where
  "list_next iter m =
     (case get_iter m iter of None \<Rightarrow> Inl Fault
      | Some it \<Rightarrow>
          let current = iter_next it in
          if current \<noteq> NULL then
            (case get_node m current of None \<Rightarrow> Inl Fault
             | Some nd \<Rightarrow>
                 Inr (current, m\<lparr>iters := (iters m)(iter \<mapsto>
                        it\<lparr>iter_next := (if iter_direction it = START_HEAD
                                          then node_next nd else node_prev nd)\<rparr>)\<rparr>))
          else Inr (current, m))"

text \<open>
  \<^verbatim>\<open>list_clone\<close>. \<open>copy_a\<close> and \<open>iter_a\<close> are the answers of \<^verbatim>\<open>zmalloc\<close> for the list
  and the iterator; \<open>as\<close> holds the answers for the nodes, one per call of \<^verbatim>\<open>list_add\<close>
  in order (when the answers are used up the allocation fails). \<open>clone_fail\<close> is the
  block \<^verbatim>\<open>list_free(copy); list_free_iterator(iter); return NULL;\<close> that the source
  has twice.
\<close>

definition clone_fail :: "ptr \<Rightarrow> ptr \<Rightarrow> memory \<Rightarrow> error + (ptr \<times> memory)" where
  "clone_fail copy iter m =
     bind (list_free copy m) (\<lambda>m1.
     bind (list_free_iterator iter m1) (\<lambda>m2. Inr (NULL, m2)))"

fun clone_loop :: "nat \<Rightarrow> ptr \<Rightarrow> ptr \<Rightarrow> ptr list \<Rightarrow> memory \<Rightarrow> error + (ptr \<times> memory)" where
  "clone_loop 0 copy iter as m = Inl OutOfFuel"
| "clone_loop (Suc k) copy iter as m =
     bind (list_next iter m) (\<lambda>(node, m1).
       if node = NULL then
         bind (list_free_iterator iter m1) (\<lambda>m2. Inr (copy, m2))
       else
         case get_list m1 copy of None \<Rightarrow> Inl Fault
         | Some c \<Rightarrow>
        (case get_node m1 node of None \<Rightarrow> Inl Fault
         | Some nd \<Rightarrow>
        (case dup c of
           Some d \<Rightarrow>
             let v = d (node_value nd); m2 = m1\<lparr>dup_log := dup_log m1 @ [v]\<rparr> in
             if v = NULL then clone_fail copy iter m2
             else
               bind (list_add copy v (case as of [] \<Rightarrow> NULL | a # _ \<Rightarrow> a) m2) (\<lambda>(r, m3).
                 if r = NULL then clone_fail copy iter m3
                 else clone_loop k copy iter (tl as) m3)
         | None \<Rightarrow>
             bind (list_add copy (node_value nd) (case as of [] \<Rightarrow> NULL | a # _ \<Rightarrow> a) m1)
               (\<lambda>(r, m3).
                 if r = NULL then clone_fail copy iter m3
                 else clone_loop k copy iter (tl as) m3))))"

definition list_clone ::
  "nat \<Rightarrow> ptr \<Rightarrow> ptr \<Rightarrow> ptr \<Rightarrow> ptr list \<Rightarrow> memory \<Rightarrow> error + (ptr \<times> memory)" where
  "list_clone fuel orig copy_a iter_a as m =
     (case list_create copy_a m of (copy, m1) \<Rightarrow>
        if copy = NULL then Inr (NULL, m1)
        else (case get_list m1 orig of None \<Rightarrow> Inl Fault
        | Some ol \<Rightarrow>
       (case get_list m1 copy of None \<Rightarrow> Inl Fault
        | Some c \<Rightarrow>
            bind (list_iterator orig START_HEAD iter_a
                   (put_list copy (c\<lparr>dup := dup ol, free := free ol, match := match ol\<rparr>) m1))
              (\<lambda>(iter, m2). clone_loop fuel copy iter as m2))))"

text \<open>\<^verbatim>\<open>list_search\<close>; \<open>iter_a\<close> is the answer of \<^verbatim>\<open>zmalloc\<close> for the iterator.\<close>

fun search_loop :: "nat \<Rightarrow> ptr \<Rightarrow> ptr \<Rightarrow> ptr \<Rightarrow> memory \<Rightarrow> error + (ptr \<times> memory)" where
  "search_loop 0 list key iter m = Inl OutOfFuel"
| "search_loop (Suc k) list key iter m =
     bind (list_next iter m) (\<lambda>(node, m1).
       if node = NULL then
         bind (list_free_iterator iter m1) (\<lambda>m2. Inr (NULL, m2))
       else
         case get_list m1 list of None \<Rightarrow> Inl Fault
         | Some l \<Rightarrow>
        (case get_node m1 node of None \<Rightarrow> Inl Fault
         | Some nd \<Rightarrow>
        (case match l of
           Some f \<Rightarrow>
             if f (node_value nd) key \<noteq> 0
             then bind (list_free_iterator iter m1) (\<lambda>m2. Inr (node, m2))
             else search_loop k list key iter m1
         | None \<Rightarrow>
             if key = node_value nd
             then bind (list_free_iterator iter m1) (\<lambda>m2. Inr (node, m2))
             else search_loop k list key iter m1)))"

definition list_search :: "nat \<Rightarrow> ptr \<Rightarrow> ptr \<Rightarrow> ptr \<Rightarrow> memory \<Rightarrow> error + (ptr \<times> memory)" where
  "list_search fuel list key iter_a m =
     bind (list_iterator list START_HEAD iter_a m)
       (\<lambda>(iter, m1). search_loop fuel list key iter m1)"

text \<open>
  \<^verbatim>\<open>list_index\<close>. The argument is a \<^verbatim>\<open>long\<close>, a 64-bit word read as two's complement;
  \<^verbatim>\<open>(-index)-1\<close> is computed on the word. Each \<^verbatim>\<open>while(index-- && n)\<close> counts the
  index down to 0.
\<close>

fun index_next :: "nat \<Rightarrow> ptr \<Rightarrow> memory \<Rightarrow> error + ptr" where
  "index_next 0 n m = Inr n"
| "index_next (Suc k) n m =
     (if n = NULL then Inr n
      else case get_node m n of None \<Rightarrow> Inl Fault
      | Some nd \<Rightarrow> index_next k (node_next nd) m)"

fun index_prev :: "nat \<Rightarrow> ptr \<Rightarrow> memory \<Rightarrow> error + ptr" where
  "index_prev 0 n m = Inr n"
| "index_prev (Suc k) n m =
     (if n = NULL then Inr n
      else case get_node m n of None \<Rightarrow> Inl Fault
      | Some nd \<Rightarrow> index_prev k (node_prev nd) m)"

definition list_index :: "ptr \<Rightarrow> 64 word \<Rightarrow> memory \<Rightarrow> error + ptr" where
  "list_index list index m =
     (case get_list m list of None \<Rightarrow> Inl Fault
      | Some l \<Rightarrow>
          if index <s 0 then index_prev (unat ((- index) - 1)) (tail l) m
          else index_next (unat index) (head l) m)"

text \<open>\<^verbatim>\<open>list_rotate\<close>; \<^verbatim>\<open>list_size(list)\<close> is \<^verbatim>\<open>list->len\<close>.\<close>

definition list_rotate :: "ptr \<Rightarrow> memory \<Rightarrow> error + memory" where
  "list_rotate list m =
     (case get_list m list of None \<Rightarrow> Inl Fault
      | Some l \<Rightarrow>
          let t = tail l in
          if len l \<le> 1 then Inr m
          else (case get_node m t of None \<Rightarrow> Inl Fault
          | Some tn \<Rightarrow>
              let l1 = l\<lparr>tail := node_prev tn\<rparr> in
              bind (set_next (tail l1) NULL m) (\<lambda>m1.
              bind (set_prev (head l1) t m1) (\<lambda>m2.
              bind (set_prev t NULL m2) (\<lambda>m3.
              bind (set_next t (head l1) m3) (\<lambda>m4.
              Inr (put_list list (l1\<lparr>head := t\<rparr>) m4)))))))"

text \<open>
  The macros of \<^verbatim>\<open>list.h\<close> that install the callbacks:
  \<^verbatim>\<open>list_set_clone_method\<close>, \<^verbatim>\<open>list_set_free_method\<close> and \<^verbatim>\<open>list_set_match_method\<close>.
\<close>

definition list_set_clone_method ::
  "ptr \<Rightarrow> (ptr \<Rightarrow> ptr) option \<Rightarrow> memory \<Rightarrow> error + memory" where
  "list_set_clone_method list f m =
     (case get_list m list of None \<Rightarrow> Inl Fault
      | Some l \<Rightarrow> Inr (put_list list (l\<lparr>dup := f\<rparr>) m))"

definition list_set_free_method ::
  "ptr \<Rightarrow> (ptr \<Rightarrow> unit) option \<Rightarrow> memory \<Rightarrow> error + memory" where
  "list_set_free_method list f m =
     (case get_list m list of None \<Rightarrow> Inl Fault
      | Some l \<Rightarrow> Inr (put_list list (l\<lparr>free := f\<rparr>) m))"

definition list_set_match_method ::
  "ptr \<Rightarrow> (ptr \<Rightarrow> ptr \<Rightarrow> int) option \<Rightarrow> memory \<Rightarrow> error + memory" where
  "list_set_match_method list f m =
     (case get_list m list of None \<Rightarrow> Inl Fault
      | Some l \<Rightarrow> Inr (put_list list (l\<lparr>match := f\<rparr>) m))"

text \<open>\<^verbatim>\<open>list_rotate\<close> applied \<open>k\<close> times in a row.\<close>

fun rotate_n :: "nat \<Rightarrow> ptr \<Rightarrow> memory \<Rightarrow> error + memory" where
  "rotate_n 0 list m = Inr m"
| "rotate_n (Suc k) list m = bind (list_rotate list m) (rotate_n k list)"

section \<open>Lists in memory\<close>

text \<open>
  Forward traversal: starting at \<open>p\<close> and following \<^verbatim>\<open>next\<close> visits exactly the nodes
  \<open>xs\<close>, in this order, and then reaches the null pointer. Backward traversal is the
  same along \<^verbatim>\<open>prev\<close>.
\<close>

fun fwd_path :: "(ptr \<Rightarrow> list_node option) \<Rightarrow> ptr \<Rightarrow> ptr list \<Rightarrow> bool" where
  "fwd_path h p [] = (p = NULL)"
| "fwd_path h p (x # xs) =
     (p = x \<and> x \<noteq> NULL \<and>
      (case h x of None \<Rightarrow> False | Some nd \<Rightarrow> fwd_path h (node_next nd) xs))"

fun bwd_path :: "(ptr \<Rightarrow> list_node option) \<Rightarrow> ptr \<Rightarrow> ptr list \<Rightarrow> bool" where
  "bwd_path h p [] = (p = NULL)"
| "bwd_path h p (x # xs) =
     (p = x \<and> x \<noteq> NULL \<and>
      (case h x of None \<Rightarrow> False | Some nd \<Rightarrow> bwd_path h (node_prev nd) xs))"

text \<open>
  The invariants of a list: the count is the number of nodes on the forward traversal
  from the head, the backward traversal from the tail is its reverse, and the count
  is 0 exactly when head and tail are both null.
\<close>

definition list_invariants :: "memory \<Rightarrow> ptr \<Rightarrow> bool" where
  "list_invariants m list \<longleftrightarrow>
     (case get_list m list of None \<Rightarrow> False
      | Some l \<Rightarrow>
          (\<exists>xs. fwd_path (nodes m) (head l) xs \<and> bwd_path (nodes m) (tail l) (rev xs) \<and>
                unat (len l) = length xs) \<and>
          (len l = 0 \<longleftrightarrow> head l = NULL \<and> tail l = NULL))"

text \<open>The node \<open>x\<close> belongs to the list: it is on the forward traversal from the head.\<close>

definition is_member :: "memory \<Rightarrow> ptr \<Rightarrow> ptr \<Rightarrow> bool" where
  "is_member m list x \<longleftrightarrow>
     (case get_list m list of None \<Rightarrow> False
      | Some l \<Rightarrow> \<exists>xs. fwd_path (nodes m) (head l) xs \<and> x \<in> set xs)"

text \<open>
  A doubly linked segment: the nodes \<open>xs\<close> are allocated and not null, each one's
  \<^verbatim>\<open>prev\<close> is its predecessor in \<open>xs\<close> (\<open>p\<close> for the first) and each one's \<^verbatim>\<open>next\<close> its
  successor (\<open>q\<close> for the last).
\<close>

fun dseg :: "(ptr \<Rightarrow> list_node option) \<Rightarrow> ptr \<Rightarrow> ptr list \<Rightarrow> ptr \<Rightarrow> bool" where
  "dseg h p [] q = True"
| "dseg h p (x # xs) q =
     (x \<noteq> NULL \<and>
      (case h x of None \<Rightarrow> False
       | Some nd \<Rightarrow> node_prev nd = p \<and> node_next nd = hd (xs @ [q]) \<and> dseg h x xs q))"

text \<open>
  The representation invariant: the list at address \<open>list\<close> consists of the distinct
  nodes \<open>xs\<close>, from head to tail.
\<close>

definition is_list :: "memory \<Rightarrow> ptr \<Rightarrow> ptr list \<Rightarrow> bool" where
  "is_list m list xs \<longleftrightarrow>
     (case get_list m list of None \<Rightarrow> False
      | Some l \<Rightarrow>
          head l = hd (xs @ [NULL]) \<and> tail l = last (NULL # xs) \<and>
          unat (len l) = length xs) \<and>
     distinct xs \<and> dseg (nodes m) NULL xs NULL"

text \<open>The values stored in the nodes \<open>xs\<close>, in order.\<close>

definition vals_of :: "(ptr \<Rightarrow> list_node option) \<Rightarrow> ptr list \<Rightarrow> ptr list" where
  "vals_of h xs = map (\<lambda>x. case h x of None \<Rightarrow> NULL | Some nd \<Rightarrow> node_value nd) xs"

text \<open>One rotation on the sequence of nodes: the last node moves to the front.\<close>

definition rot1 :: "'a list \<Rightarrow> 'a list" where
  "rot1 xs = (if length xs \<le> 1 then xs else last xs # butlast xs)"

text \<open>
  The states a list reaches from \<^verbatim>\<open>list_create\<close> by \<^verbatim>\<open>list_add_head\<close>, \<^verbatim>\<open>list_add\<close>,
  \<^verbatim>\<open>list_insert\<close>, \<^verbatim>\<open>list_remove\<close> and \<^verbatim>\<open>list_rotate\<close>. Every allocation either fails
  or answers a fresh address, and the node handed to \<^verbatim>\<open>list_insert\<close> or
  \<^verbatim>\<open>list_remove\<close> belongs to the list, as the interface requires.
\<close>

inductive reach :: "ptr \<Rightarrow> memory \<Rightarrow> bool" where
  r_create: "fresh m0 a \<Longrightarrow> list_create a m0 = (list, m) \<Longrightarrow> reach list m"
| r_add_head: "reach list m \<Longrightarrow> a = NULL \<or> fresh m a \<Longrightarrow>
     list_add_head list v a m = Inr (r, m') \<Longrightarrow> reach list m'"
| r_add: "reach list m \<Longrightarrow> a = NULL \<or> fresh m a \<Longrightarrow>
     list_add list v a m = Inr (r, m') \<Longrightarrow> reach list m'"
| r_insert: "reach list m \<Longrightarrow> a = NULL \<or> fresh m a \<Longrightarrow> is_member m list old_node \<Longrightarrow>
     list_insert list old_node v after a m = Inr (r, m') \<Longrightarrow> reach list m'"
| r_remove: "reach list m \<Longrightarrow> is_member m list node \<Longrightarrow>
     list_remove list node m = Inr m' \<Longrightarrow> reach list m'"
| r_rotate: "reach list m \<Longrightarrow> list_rotate list m = Inr m' \<Longrightarrow> reach list m'"

section \<open>A concrete run\<close>

text \<open>
  The empty memory and a run on it: create a list at address 100, add the values 1, 2, 3
  at the tail (nodes 11, 12, 13), rotate, remove the node holding 3, add 4 at the head
  (node 14) and insert 5 after the node holding 1 (node 15).
\<close>

definition mem0 :: memory where
  "mem0 = \<lparr>nodes = (\<lambda>_. None), lists = (\<lambda>_. None), iters = (\<lambda>_. None), dup_log = [], free_log = []\<rparr>"

definition mem_of :: "error + (ptr \<times> memory) \<Rightarrow> memory" where
  "mem_of r = (case r of Inr (_, m) \<Rightarrow> m | Inl _ \<Rightarrow> mem0)"

definition mem_of' :: "error + memory \<Rightarrow> memory" where
  "mem_of' r = (case r of Inr m \<Rightarrow> m | Inl _ \<Rightarrow> mem0)"

definition demo0 :: memory where "demo0 = snd (list_create 100 mem0)"
definition demo1 :: memory where "demo1 = mem_of (list_add 100 1 11 demo0)"
definition demo2 :: memory where "demo2 = mem_of (list_add 100 2 12 demo1)"
definition demo3 :: memory where "demo3 = mem_of (list_add 100 3 13 demo2)"
definition demo4 :: memory where "demo4 = mem_of' (list_rotate 100 demo3)"
definition demo5 :: memory where "demo5 = mem_of' (list_remove 100 13 demo4)"
definition demo6 :: memory where "demo6 = mem_of (list_add_head 100 4 14 demo5)"
definition demo7 :: memory where "demo7 = mem_of (list_insert 100 11 5 1 15 demo6)"

text \<open>
  Whether a value matches a key: by the \<^verbatim>\<open>match\<close> callback when one is installed (a
  result other than 0 is a match), by comparing the two pointers otherwise.
\<close>

definition key_matches :: "list_t \<Rightarrow> ptr \<Rightarrow> ptr \<Rightarrow> bool" where
  "key_matches l v key = (case match l of Some f \<Rightarrow> f v key \<noteq> 0 | None \<Rightarrow> key = v)"

definition node_matches :: "memory \<Rightarrow> list_t \<Rightarrow> ptr \<Rightarrow> ptr \<Rightarrow> bool" where
  "node_matches m l key x =
     (case nodes m x of None \<Rightarrow> False | Some nd \<Rightarrow> key_matches l (node_value nd) key)"

text \<open>Two memories that differ at most in the iterator at one address.\<close>

definition same_but_iter :: "ptr \<Rightarrow> memory \<Rightarrow> memory \<Rightarrow> bool" where
  "same_but_iter it m m' \<longleftrightarrow>
     nodes m' = nodes m \<and> lists m' = lists m \<and> dup_log m' = dup_log m \<and>
     free_log m' = free_log m \<and> (\<forall>a. a \<noteq> it \<longrightarrow> iters m' a = iters m a)"

text \<open>
  Iterators for the concrete run: a forward iterator at address 200 over the list
  holding 1, 2, 3, one over the empty list, and the list with a \<^verbatim>\<open>match\<close>
  callback installed that matches a value with the key one below it.
\<close>

definition demo_it :: memory where
  "demo_it = mem_of (list_iterator 100 START_HEAD 200 demo3)"

definition demo_match :: memory where
  "demo_match = mem_of' (list_set_match_method 100 (Some (\<lambda>v k. if v = k + 1 then 1 else 0)) demo3)"

definition demo_end :: memory where
  "demo_end = mem_of (list_iterator 100 START_HEAD 200 demo0)"



text \<open>
  Lists for the concrete runs of \<^verbatim>\<open>list_clone\<close>: the list holding 1, 2 with a \<^verbatim>\<open>dup\<close>
  callback that answers 7 for the value 1 and fails on every other value; the same
  with a \<^verbatim>\<open>free\<close> callback as well; and the list with a \<^verbatim>\<open>free\<close> callback only.
\<close>

definition demo_dup :: memory where
  "demo_dup = mem_of' (list_set_clone_method 100 (Some (\<lambda>v. if v = 1 then 7 else NULL)) demo2)"

definition demo_dup_free :: memory where
  "demo_dup_free = mem_of' (list_set_free_method 100 (Some (\<lambda>_. ())) demo_dup)"

definition demo_free :: memory where
  "demo_free = mem_of' (list_set_free_method 100 (Some (\<lambda>_. ())) demo2)"

section \<open>Segments and the representation invariant\<close>

lemma dseg_frame:
  "(\<And>x. x \<in> set xs \<Longrightarrow> h' x = h x) \<Longrightarrow> dseg h' p xs q = dseg h p xs q"
  by (induction xs arbitrary: p) (auto split: option.splits)

lemma dseg_upd_eq [simp]:
  "x \<notin> set xs \<Longrightarrow> dseg (h(x := y)) p xs q = dseg h p xs q"
  by (rule dseg_frame) auto

lemma dseg_append:
  "dseg h p (xs @ ys) q \<longleftrightarrow>
     dseg h p xs (hd (ys @ [q])) \<and> dseg h (last (p # xs)) ys q"
  by (induction xs arbitrary: p) (auto simp: hd_append split: option.splits)

lemma dseg_alloc: "dseg h p xs q \<Longrightarrow> x \<in> set xs \<Longrightarrow> x \<noteq> NULL \<and> h x \<noteq> None"
  by (induction xs arbitrary: p) (auto split: option.splits)

lemma ptr_list_bound:
  fixes xs :: "ptr list"
  assumes "distinct xs" "NULL \<notin> set xs"
  shows "length xs < 2 ^ 64"
proof -
  have "distinct (NULL # xs)" using assms by simp
  then have "length (NULL # xs) = card (set (NULL # xs))" by (simp only: distinct_card)
  also have "\<dots> \<le> card (UNIV :: ptr set)" by (rule card_mono) auto
  also have "\<dots> = 2 ^ 64" by (simp add: card_word)
  finally show ?thesis by simp
qed

lemma len_succ:
  fixes xs :: "ptr list"
  assumes "unat (k :: 64 word) = length xs" "distinct xs" "NULL \<notin> set xs"
    "a \<notin> set xs" "a \<noteq> NULL"
  shows "unat (k + 1) = Suc (length xs)"
proof -
  have "length (a # xs) < 2 ^ 64" using assms by (intro ptr_list_bound) auto
  then have "unat k + 1 < 2 ^ 64" using assms by simp
  then show ?thesis using assms(1)
    by (simp add: unat_word_ariths)
qed

lemma len_pred: "unat (k :: 64 word) = Suc n \<Longrightarrow> unat (k - 1) = n"
  by (metis diff_Suc_1 nat.simps(3) unat_eq_zero unat_minus_one)

lemma is_listD:
  assumes "is_list m list xs"
  obtains l where "list \<noteq> NULL" "lists m list = Some l" "get_list m list = Some l"
    "head l = hd (xs @ [NULL])" "tail l = last (NULL # xs)"
    "unat (len l) = length xs" "distinct xs" "dseg (nodes m) NULL xs NULL"
  using assms by (auto simp: is_list_def get_list_def split: option.splits if_splits)

lemma is_list_nodes:
  assumes "is_list m list xs" "x \<in> set xs"
  shows "x \<noteq> NULL" "nodes m x \<noteq> None"
  using assms dseg_alloc[of "nodes m" NULL xs NULL x] by (auto simp: is_list_def)

section \<open>The structural operations keep the representation invariant\<close>

lemma list_create_ok:
  assumes "a \<noteq> NULL"
  shows "list_create a m = (a, put_list a
     \<lparr>head = NULL, tail = NULL, dup = None, free = None, match = None, len = 0\<rparr> m)"
    and "is_list (snd (list_create a m)) a []"
  using assms by (simp_all add: list_create_def is_list_def get_list_def put_list_def)

lemma list_add_head_ok:
  assumes L: "is_list m list xs" and F: "fresh m a"
  shows "\<exists>m'. list_add_head list v a m = Inr (list, m') \<and> is_list m' list (a # xs)"
proof -
  from L obtain l where l: "list \<noteq> NULL" "lists m list = Some l" "get_list m list = Some l"
    "head l = hd (xs @ [NULL])" "tail l = last (NULL # xs)"
    "unat (len l) = length xs" "distinct xs" "dseg (nodes m) NULL xs NULL"
    by (rule is_listD)
  have a: "a \<noteq> NULL" "nodes m a = None" using F by (auto simp: fresh_def)
  have nxs: "a \<notin> set xs" "NULL \<notin> set xs"
    using is_list_nodes[OF L, of a] is_list_nodes[OF L, of NULL] a by auto
  have len': "unat (len l + 1) = Suc (length xs)"
    using len_succ[OF l(6) l(7) nxs(2) nxs(1) a(1)] .
  show ?thesis
  proof (cases xs)
    case Nil
    then have "len l = 0" using l(6) by (simp add: unat_eq_zero)
    then show ?thesis using Nil l a len'
      by (simp add: list_add_head_def is_list_def get_list_def put_list_def)
  next
    case (Cons x ys)
    then have nz: "len l \<noteq> 0" using l(6) by auto
    from Cons l(8) obtain xn where xn: "x \<noteq> NULL" "nodes m x = Some xn"
      by (auto split: option.splits)
    have xa: "x \<noteq> a" "x \<notin> set ys" "a \<notin> set ys" using nxs l(7) Cons by auto
    show ?thesis using Cons l a len' nz xn xa nxs
      by (simp add: list_add_head_def is_list_def get_list_def put_list_def bind_def
          set_prev_def get_node_def)
  qed
qed

lemma list_add_ok:
  assumes L: "is_list m list xs" and a: "a \<noteq> NULL" "nodes m a = None"
  shows "\<exists>m' l l'. list_add list v a m = Inr (list, m') \<and> is_list m' list (xs @ [a]) \<and>
     vals_of (nodes m') (xs @ [a]) = vals_of (nodes m) xs @ [v] \<and>
     (\<forall>x. x \<notin> insert a (set xs) \<longrightarrow> nodes m' x = nodes m x) \<and>
     (\<forall>q. q \<noteq> list \<longrightarrow> lists m' q = lists m q) \<and>
     iters m' = iters m \<and> dup_log m' = dup_log m \<and> free_log m' = free_log m \<and>
     lists m list = Some l \<and> lists m' list = Some l' \<and>
     dup l' = dup l \<and> free l' = free l \<and> match l' = match l"
proof -
  from L obtain l where l: "list \<noteq> NULL" "lists m list = Some l" "get_list m list = Some l"
    "head l = hd (xs @ [NULL])" "tail l = last (NULL # xs)"
    "unat (len l) = length xs" "distinct xs" "dseg (nodes m) NULL xs NULL"
    by (rule is_listD)
  have nxs: "a \<notin> set xs" "NULL \<notin> set xs"
    using is_list_nodes[OF L, of a] is_list_nodes[OF L, of NULL] a by auto
  have len': "unat (len l + 1) = Suc (length xs)"
    using len_succ[OF l(6) l(7) nxs(2) nxs(1) a(1)] .
  show ?thesis
  proof (cases xs rule: rev_cases)
    case Nil
    then have "len l = 0" using l(6) by (simp add: unat_eq_zero)
    then show ?thesis using Nil l a len'
      by (simp add: list_add_def is_list_def get_list_def put_list_def vals_of_def)
  next
    case (snoc ys x)
    then have nz: "len l \<noteq> 0" using l(6) by auto
    have xin: "x \<in> set xs" using snoc by simp
    obtain xn where xn: "x \<noteq> NULL" "nodes m x = Some xn"
      using is_list_nodes[OF L xin] by auto
    have xa: "x \<noteq> a" "x \<notin> set ys" "a \<notin> set ys" using nxs l(7) snoc by auto
    show ?thesis using snoc l a len' nz xn xa nxs
      by (simp add: list_add_def is_list_def get_list_def put_list_def bind_def set_next_def
          get_node_def hd_append dseg_append vals_of_def)
  qed
qed

lemmas op_defs = is_list_def get_list_def put_list_def bind_def set_next_def set_prev_def
  get_node_def hd_append dseg_append

lemma list_insert_ok:
  assumes L: "is_list m list (as @ old # bs)" and F: "fresh m a"
  shows "\<exists>m'. list_insert list old v after a m = Inr (list, m') \<and>
     is_list m' list (if after \<noteq> 0 then as @ old # a # bs else as @ a # old # bs)"
proof -
  let ?xs = "as @ old # bs"
  from L obtain l where l: "list \<noteq> NULL" "lists m list = Some l" "get_list m list = Some l"
    "head l = hd (?xs @ [NULL])" "tail l = last (NULL # ?xs)"
    "unat (len l) = length ?xs" "distinct ?xs" "dseg (nodes m) NULL ?xs NULL"
    by (rule is_listD)
  have a: "a \<noteq> NULL" "nodes m a = None" using F by (auto simp: fresh_def)
  have nxs: "a \<notin> set ?xs" "NULL \<notin> set ?xs"
    using is_list_nodes[OF L, of a] is_list_nodes[OF L, of NULL] a by auto
  have len': "unat (len l + 1) = Suc (length ?xs)"
    using len_succ[OF l(6) l(7) nxs(2) nxs(1) a(1)] .
  obtain oldn where oldn: "nodes m old = Some oldn"
    using is_list_nodes[OF L, of old] by auto
  have tl_iff: "tail l = old \<longleftrightarrow> bs = []" using l(5,7) by auto
  have hd_iff: "head l = old \<longleftrightarrow> as = []" using l(4,7) by (cases as) auto
  show ?thesis
  proof (cases "after \<noteq> 0")
    case True
    show ?thesis
    proof (cases bs)
      case Nil
      then show ?thesis using True l a nxs len' oldn tl_iff
        by (auto simp add: list_insert_def op_defs Let_def split: option.splits)
    next
      case (Cons b bs')
      then show ?thesis using True l a nxs len' oldn tl_iff
        by (auto simp add: list_insert_def op_defs Let_def split: option.splits)
    qed
  next
    case False
    show ?thesis
    proof (cases as rule: rev_cases)
      case Nil
      then show ?thesis using False l a nxs len' oldn hd_iff
        by (auto simp add: list_insert_def op_defs Let_def split: option.splits)
    next
      case (snoc as' p)
      then show ?thesis using False l a nxs len' oldn hd_iff
        by (auto simp add: list_insert_def op_defs Let_def split: option.splits)
    qed
  qed
qed

lemma list_remove_mid:
  assumes L: "is_list m list ((as' @ [p]) @ node # b # bs')"
  shows "\<exists>m'. list_remove list node m = Inr m' \<and> is_list m' list ((as' @ [p]) @ b # bs')"
proof -
  let ?xs = "(as' @ [p]) @ node # b # bs'"
  from L obtain l where l: "list \<noteq> NULL" "lists m list = Some l" "get_list m list = Some l"
    "head l = hd (?xs @ [NULL])" "tail l = last (NULL # ?xs)"
    "unat (len l) = length ?xs" "distinct ?xs" "dseg (nodes m) NULL ?xs NULL"
    by (rule is_listD)
  have nxs: "NULL \<notin> set ?xs"
    using is_list_nodes[OF L, of NULL] by auto
  have len': "unat (len l - 1) = length ((as' @ [p]) @ b # bs')"
    using l(6) by (intro len_pred) simp
  obtain nd where nd: "nodes m node = Some nd"
    using is_list_nodes[OF L, of node] by auto
  obtain pn where pn: "nodes m p = Some pn"
    using is_list_nodes[OF L, of p] by auto
  obtain bn where bn: "nodes m b = Some bn"
    using is_list_nodes[OF L, of b] by auto
  have d: "dseg (nodes m) NULL as' p" "node_prev pn = last (NULL # as')" "node_next pn = node"
    "node_prev nd = p" "node_next nd = b" "node_prev bn = node" "node_next bn = hd (bs' @ [NULL])"
    "dseg (nodes m) b bs' NULL"
    using l(8) nd pn bn by (simp_all add: dseg_append hd_append)
  have ne: "p \<noteq> NULL" "b \<noteq> NULL" "node \<noteq> NULL" "p \<noteq> node" "p \<noteq> b" "node \<noteq> b"
    "p \<notin> set as'" "node \<notin> set as'" "b \<notin> set as'" "p \<notin> set bs'" "node \<notin> set bs'" "b \<notin> set bs'"
    "distinct as'" "distinct bs'" "set as' \<inter> set bs' = {}"
    using l(7) nxs by auto
  have R: "list_remove list node m = Inr (put_list list (l\<lparr>len := len l - 1\<rparr>)
      (call_free (free l) (node_value nd) m
         \<lparr>nodes := (nodes m)(p \<mapsto> pn\<lparr>node_next := b\<rparr>, b \<mapsto> bn\<lparr>node_prev := p\<rparr>, node := None)\<rparr>))"
    using l(3) nd pn bn d ne
    by (simp add: list_remove_def bind_def set_next_def set_prev_def get_node_def zfree_node_def
        call_free_def split: option.splits)
  show ?thesis unfolding R using l d ne len' 
    by (simp add: is_list_def get_list_def put_list_def call_free_def dseg_append hd_append
       split: option.splits)
qed

lemma list_remove_ok:
  assumes L: "is_list m list (as @ node # bs)"
  shows "\<exists>m'. list_remove list node m = Inr m' \<and> is_list m' list (as @ bs)"
proof -
  let ?xs = "as @ node # bs"
  from L obtain l where l: "list \<noteq> NULL" "lists m list = Some l" "get_list m list = Some l"
    "head l = hd (?xs @ [NULL])" "tail l = last (NULL # ?xs)"
    "unat (len l) = length ?xs" "distinct ?xs" "dseg (nodes m) NULL ?xs NULL"
    by (rule is_listD)
  have nxs: "NULL \<notin> set ?xs"
    using is_list_nodes[OF L, of NULL] by auto
  have len': "unat (len l - 1) = length (as @ bs)"
    using l(6) by (intro len_pred) simp
  obtain nd where nd: "nodes m node = Some nd"
    using is_list_nodes[OF L, of node] by auto
  show ?thesis
  proof (cases as rule: rev_cases)
    case Nil
    show ?thesis
    proof (cases bs)
      case Nil': Nil
      show ?thesis using Nil Nil' l nxs len' nd
        by (simp add: list_remove_def op_defs zfree_node_def call_free_def
          split: option.splits)
    next
      case (Cons b bs')
      obtain bn where bn: "nodes m b = Some bn"
        using is_list_nodes[OF L, of b] Cons by auto
      have ne: "b \<noteq> node" "node \<noteq> b" using l(7) Cons by auto
      show ?thesis using Nil Cons l nxs len' nd bn ne
        by (simp add: list_remove_def op_defs zfree_node_def call_free_def
          split: option.splits)
    qed
  next
    case (snoc as' p)
    show ?thesis
    proof (cases bs)
      case Nil
      obtain pn where pn: "nodes m p = Some pn"
        using is_list_nodes[OF L, of p] snoc by auto
      have ne: "p \<noteq> node" "node \<noteq> p" using l(7) snoc by auto
      show ?thesis using snoc Nil l nxs len' nd pn ne
        by (simp add: list_remove_def op_defs zfree_node_def call_free_def
          split: option.splits)
    next
      case (Cons b bs')
      show ?thesis using list_remove_mid[of m list as' p node b bs'] L unfolding snoc Cons by simp
    qed
  qed
qed

lemma list_remove_iters:
  assumes "list_remove list node m = Inr m'" 
  shows "iters m' = iters m"
  using assms
  by (auto simp: list_remove_def get_list_def get_node_def put_list_def bind_def
      set_prev_def set_next_def zfree_node_def call_free_def split: if_splits option.splits)

lemma list_rotate_small:
  assumes L: "is_list m list xs" and "length xs \<le> 1"
  shows "list_rotate list m = Inr m"
proof -
  from L obtain l where l: "get_list m list = Some l" "unat (len l) = length xs"
    by (rule is_listD)
  have "len l \<le> 1" using l(2) assms(2) by (simp add: word_le_nat_alt)
  then show ?thesis using l by (simp add: list_rotate_def)
qed

lemma list_rotate_result:
  assumes L: "is_list m list (y # ys @ [t])"
  obtains l yn tn pn where
    "lists m list = Some l" "nodes m y = Some yn" "nodes m t = Some tn"
    "nodes m (node_prev tn) = Some pn" "node_prev tn = last (y # ys)"
    "list_rotate list m = Inr (put_list list (l\<lparr>tail := node_prev tn, head := t\<rparr>)
       (m\<lparr>nodes := (nodes m)(node_prev tn \<mapsto> pn\<lparr>node_next := NULL\<rparr>,
            y \<mapsto> (if ys = [] then yn\<lparr>node_next := NULL\<rparr> else yn)\<lparr>node_prev := t\<rparr>,
            t \<mapsto> tn\<lparr>node_prev := NULL, node_next := y\<rparr>)\<rparr>))"
proof -
  let ?xs = "y # ys @ [t]"
  from L obtain l where l: "list \<noteq> NULL" "lists m list = Some l" "get_list m list = Some l"
    "head l = hd (?xs @ [NULL])" "tail l = last (NULL # ?xs)"
    "unat (len l) = length ?xs" "distinct ?xs" "dseg (nodes m) NULL ?xs NULL"
    by (rule is_listD)
  have nxs: "NULL \<notin> set ?xs"
    using is_list_nodes[OF L, of NULL] by auto
  have len': "\<not> len l \<le> 1" using l(6) by (simp add: word_le_nat_alt)
  obtain yn where yn: "nodes m y = Some yn" using is_list_nodes[OF L, of y] by auto
  obtain tn where tn: "nodes m t = Some tn" using is_list_nodes[OF L, of t] by auto
  have tp: "node_prev tn = last (y # ys)"
    using l(8) tn yn by (simp add: dseg_append hd_append del: last.simps)
  have "last (y # ys) \<in> set ?xs" by (cases ys rule: rev_cases) auto
  then obtain pn where pn: "nodes m (last (y # ys)) = Some pn" "last (y # ys) \<noteq> NULL"
    using is_list_nodes[OF L, of "last (y # ys)"] by auto
  have ne: "y \<noteq> NULL" "t \<noteq> NULL" "y \<noteq> t" "last (y # ys) \<noteq> t" "ys \<noteq> [] \<Longrightarrow> last (y # ys) \<noteq> y"
    using l(7) nxs by (auto simp: last_in_set)
  have R: "list_rotate list m = Inr (put_list list (l\<lparr>tail := node_prev tn, head := t\<rparr>)
       (m\<lparr>nodes := (nodes m)(node_prev tn \<mapsto> pn\<lparr>node_next := NULL\<rparr>,
            y \<mapsto> (if ys = [] then yn\<lparr>node_next := NULL\<rparr> else yn)\<lparr>node_prev := t\<rparr>,
            t \<mapsto> tn\<lparr>node_prev := NULL, node_next := y\<rparr>)\<rparr>))"
  proof (cases "ys = []")
    case True
    then have "pn = yn" using pn yn by simp
    then show ?thesis using True l(3,4,5) len' yn tn tp pn ne
      by (simp add: list_rotate_def bind_def set_next_def set_prev_def get_node_def Let_def)
  next
    case False
    then show ?thesis using l(3,4,5) len' yn tn tp pn ne
      by (simp add: list_rotate_def bind_def set_next_def set_prev_def get_node_def Let_def)
  qed
  show ?thesis using that[OF l(2) yn tn _ tp R] pn tp by simp
qed

lemma list_rotate_ok:
  assumes L: "is_list m list (y # ys @ [t])"
  shows "\<exists>m'. list_rotate list m = Inr m' \<and> is_list m' list (t # y # ys)"
proof -
  let ?xs = "y # ys @ [t]"
  from L obtain l0 where l: "list \<noteq> NULL" "lists m list = Some l0" 
    "unat (len l0) = length ?xs" "distinct ?xs" "dseg (nodes m) NULL ?xs NULL"
    by (rule is_listD)
  have nxs: "NULL \<notin> set ?xs"
    using is_list_nodes[OF L, of NULL] by auto
  from L obtain l yn tn pn where r:
    "lists m list = Some l" "nodes m y = Some yn" "nodes m t = Some tn"
    "nodes m (node_prev tn) = Some pn" "node_prev tn = last (y # ys)"
    "list_rotate list m = Inr (put_list list (l\<lparr>tail := node_prev tn, head := t\<rparr>)
       (m\<lparr>nodes := (nodes m)(node_prev tn \<mapsto> pn\<lparr>node_next := NULL\<rparr>,
            y \<mapsto> (if ys = [] then yn\<lparr>node_next := NULL\<rparr> else yn)\<lparr>node_prev := t\<rparr>,
            t \<mapsto> tn\<lparr>node_prev := NULL, node_next := y\<rparr>)\<rparr>))"
    by (rule list_rotate_result)
  have ll: "l0 = l" using l(2) r(1) by simp
  show ?thesis
  proof (cases ys rule: rev_cases)
    case Nil
    show ?thesis unfolding r(6) using Nil l nxs r(1-5) ll
      by (simp add: is_list_def get_list_def put_list_def)
  next
    case (snoc ys' p)
    show ?thesis unfolding r(6) using snoc l nxs r(1-5) ll
      by (auto simp add: is_list_def get_list_def put_list_def dseg_append hd_append)
  qed
qed

lemma rot1_cases:
  obtains "length xs \<le> 1" "rot1 xs = xs"
  | y ys t where "xs = y # ys @ [t]" "rot1 xs = t # y # ys"
proof (cases "length xs \<le> 1")
  case True
  then show ?thesis using that(1) by (simp add: rot1_def)
next
  case False
  then obtain y zs where 1: "xs = y # zs" "zs \<noteq> []" by (cases xs) auto
  then obtain ys t where 2: "zs = ys @ [t]" by (cases zs rule: rev_cases) auto
  show ?thesis using that(2)[of y ys t] 1 2 by (simp add: rot1_def butlast_append)
qed

lemma list_rotate_rot1:
  assumes L: "is_list m list xs"
  shows "\<exists>m'. list_rotate list m = Inr m' \<and> is_list m' list (rot1 xs)"
proof (cases xs rule: rot1_cases)
  case 1
  then show ?thesis using list_rotate_small[OF L] L by simp
next
  case (2 y ys t)
  then show ?thesis using list_rotate_ok[of m list y ys t] L by simp
qed

lemma dseg_fwd: "dseg h p xs NULL \<Longrightarrow> fwd_path h (hd (xs @ [NULL])) xs"
  by (induction xs arbitrary: p) (auto split: option.splits)

lemma dseg_bwd: "dseg h NULL xs q \<Longrightarrow> bwd_path h (last (NULL # xs)) (rev xs)"
proof (induction xs arbitrary: q rule: rev_induct)
  case Nil
  then show ?case by simp
next
  case (snoc x xs)
  from snoc.prems have 1: "dseg h NULL xs x" and 2: "dseg h (last (NULL # xs)) [x] q"
    by (simp_all add: dseg_append)
  from snoc.IH[OF 1] 2 show ?case by (auto split: option.splits)
qed

lemma fwd_path_unique: "fwd_path h p xs \<Longrightarrow> fwd_path h p ys \<Longrightarrow> xs = ys"
proof (induction xs arbitrary: p ys)
  case Nil
  then show ?case by (cases ys) auto
next
  case (Cons x xs)
  then show ?case by (cases ys) (auto split: option.splits)
qed

lemma is_list_paths:
  assumes "is_list m list xs"
  obtains l where "get_list m list = Some l" "fwd_path (nodes m) (head l) xs"
    "bwd_path (nodes m) (tail l) (rev xs)" "unat (len l) = length xs"
    "len l = 0 \<longleftrightarrow> head l = NULL \<and> tail l = NULL"
proof -
  from assms obtain l where l: "list \<noteq> NULL" "lists m list = Some l" "get_list m list = Some l"
    "head l = hd (xs @ [NULL])" "tail l = last (NULL # xs)"
    "unat (len l) = length xs" "distinct xs" "dseg (nodes m) NULL xs NULL"
    by (rule is_listD)
  have n: "NULL \<notin> set xs" using is_list_nodes[OF assms, of NULL] by auto
  have 1: "fwd_path (nodes m) (head l) xs" using dseg_fwd[OF l(8)] l(4) by simp
  have 2: "bwd_path (nodes m) (tail l) (rev xs)" using dseg_bwd[OF l(8)] l(5) by simp
  have 3: "len l = 0 \<longleftrightarrow> xs = []" using l(6) by (metis length_0_conv unat_eq_zero)
  have 4: "xs = [] \<longleftrightarrow> head l = NULL \<and> tail l = NULL"
    using l(4,5) n by (cases xs) auto
  show ?thesis using that[OF l(3) 1 2 l(6)] 3 4 by simp
qed

lemma is_list_invariants: "is_list m list xs \<Longrightarrow> list_invariants m list"
  by (erule is_list_paths) (auto simp: list_invariants_def)

lemma is_list_member: "is_list m list xs \<Longrightarrow> is_member m list x \<Longrightarrow> x \<in> set xs"
  by (erule is_list_paths) (auto simp: is_member_def dest: fwd_path_unique)

lemma reach_is_list: "reach list m \<Longrightarrow> \<exists>xs. is_list m list xs"
proof (induction rule: reach.induct)
  case (r_create m0 a list m)
  then show ?case using list_create_ok[of a m0] by (auto simp: fresh_def)
next
  case (r_add_head list m a v r m')
  then obtain xs where xs: "is_list m list xs" by blast
  show ?case
  proof (cases "a = NULL")
    case True
    then show ?thesis using r_add_head.hyps xs by (auto simp: list_add_head_def)
  next
    case False
    then show ?thesis using r_add_head.hyps list_add_head_ok[OF xs, of a v] by auto
  qed
next
  case (r_add list m a v r m')
  then obtain xs where xs: "is_list m list xs" by blast
  show ?case
  proof (cases "a = NULL")
    case True
    then show ?thesis using r_add.hyps xs by (auto simp: list_add_def)
  next
    case False
    then show ?thesis using r_add.hyps list_add_ok[OF xs, of a v] by (auto simp: fresh_def)
  qed
next
  case (r_insert list m a old_node v after r m')
  then obtain xs where xs: "is_list m list xs" by blast
  show ?case
  proof (cases "a = NULL")
    case True
    then show ?thesis using r_insert.hyps xs by (auto simp: list_insert_def)
  next
    case False
    have "old_node \<in> set xs" using is_list_member[OF xs] r_insert.hyps by simp
    then obtain as bs where "xs = as @ old_node # bs" by (auto simp: in_set_conv_decomp)
    then show ?thesis
      using False r_insert.hyps list_insert_ok[of m list as old_node bs a v after] xs by auto
  qed
next
  case (r_remove list m node m')
  then obtain xs where xs: "is_list m list xs" by blast
  have "node \<in> set xs" using is_list_member[OF xs] r_remove.hyps by simp
  then obtain as bs where "xs = as @ node # bs" by (auto simp: in_set_conv_decomp)
  then show ?case using r_remove.hyps list_remove_ok[of m list as node bs] xs by auto
next
  case (r_rotate list m m')
  then obtain xs where xs: "is_list m list xs" by blast
  then show ?case using r_rotate.hyps list_rotate_rot1[OF xs] by auto
qed

text \<open>
  Claim C1. In every state reached from \<^verbatim>\<open>list_create\<close> by any sequence of
  \<^verbatim>\<open>list_add_head\<close>, \<^verbatim>\<open>list_add\<close>, \<^verbatim>\<open>list_insert\<close>, \<^verbatim>\<open>list_remove\<close> and \<^verbatim>\<open>list_rotate\<close>
  (every intermediate state is such a state) the list invariants hold: \<^verbatim>\<open>len\<close> is the
  number of nodes on the forward traversal from \<^verbatim>\<open>head\<close>, the backward traversal from
  \<^verbatim>\<open>tail\<close> is the reverse of the forward one, and \<^verbatim>\<open>len == 0\<close> exactly when
  \<^verbatim>\<open>head\<close> and \<^verbatim>\<open>tail\<close> are both null.
\<close>

theorem invariants_hold: "reach list m \<Longrightarrow> list_invariants m list"
  using reach_is_list is_list_invariants by blast

text \<open>The concrete run, evaluated.\<close>

lemmas eval_defs = mem0_def mem_of_def mem_of'_def list_create_def put_list_def list_add_def list_add_head_def get_list_def get_node_def
  get_iter_def bind_def set_next_def set_prev_def list_rotate_def list_remove_def zfree_node_def call_free_def
  fresh_def list_insert_def word_le_nat_alt Let_def

lemmas demo_defs = demo0_def demo1_def demo2_def demo3_def demo4_def demo5_def demo6_def demo7_def

lemma demo_step0: "list_create 100 mem0 = (100, demo0)" by (simp add: demo_defs eval_defs)
lemma demo_step1: "list_add 100 1 11 demo0 = Inr (100, demo1)" by (simp add: demo_defs eval_defs)
lemma demo_step2: "list_add 100 2 12 demo1 = Inr (100, demo2)" by (simp add: demo_defs eval_defs)
lemma demo_step3: "list_add 100 3 13 demo2 = Inr (100, demo3)" by (simp add: demo_defs eval_defs)
lemma demo_step4: "list_rotate 100 demo3 = Inr demo4" by (simp add: demo_defs eval_defs)
lemma demo_step5: "list_remove 100 13 demo4 = Inr demo5" by (simp add: demo_defs eval_defs)
lemma demo_step6: "list_add_head 100 4 14 demo5 = Inr (100, demo6)" by (simp add: demo_defs eval_defs)
lemma demo_step7: "list_insert 100 11 5 1 15 demo6 = Inr (100, demo7)" by (simp add: demo_defs eval_defs)

lemma demo_fresh0: "fresh mem0 100" by (simp add: demo_defs eval_defs)
lemma demo_fresh1: "fresh demo0 11" by (simp add: demo_defs eval_defs)
lemma demo_fresh2: "fresh demo1 12" by (simp add: demo_defs eval_defs)
lemma demo_fresh3: "fresh demo2 13" by (simp add: demo_defs eval_defs)
lemma demo_fresh6: "fresh demo5 14" by (simp add: demo_defs eval_defs)
lemma demo_fresh7: "fresh demo6 15" by (simp add: demo_defs eval_defs)

lemma demo_member5: "is_member demo4 100 13"
  unfolding is_member_def
  by (simp add: demo_defs eval_defs, rule exI[of _ "[13, 11, 12]"], simp)

lemma demo_member7: "is_member demo6 100 11"
  unfolding is_member_def
  by (simp add: demo_defs eval_defs, rule exI[of _ "[14, 11, 12]"], simp)


theorem invariants_hold_witness: "reach 100 demo7 \<and> list_invariants demo7 100"
proof -
  have "reach 100 demo0" using r_create[OF demo_fresh0 demo_step0] .
  then have "reach 100 demo1" using r_add[OF _ _ demo_step1] demo_fresh1 by blast
  then have "reach 100 demo2" using r_add[OF _ _ demo_step2] demo_fresh2 by blast
  then have "reach 100 demo3" using r_add[OF _ _ demo_step3] demo_fresh3 by blast
  then have "reach 100 demo4" using r_rotate[OF _ demo_step4] by blast
  then have "reach 100 demo5" using r_remove[OF _ demo_member5 demo_step5] by blast
  then have "reach 100 demo6" using r_add_head[OF _ _ demo_step6] demo_fresh6 by blast
  then have r: "reach 100 demo7" using r_insert[OF _ _ demo_member7 demo_step7] demo_fresh7 by blast
  show ?thesis using r invariants_hold[OF r] by simp
qed

lemma demo3_is_list: "is_list demo3 100 [11, 12, 13]"
  by (simp add: demo_defs eval_defs is_list_def)

lemma demo4_eval: "list_rotate 100 demo3 = Inr demo4"
  by (simp add: demo_defs eval_defs)

text \<open>
  Claim C2. When the node allocation fails, \<^verbatim>\<open>list_add_head\<close>, \<^verbatim>\<open>list_add\<close> and
  \<^verbatim>\<open>list_insert\<close> return \<^verbatim>\<open>NULL\<close> and the memory is the one before the call: head,
  tail, count, every link of every node and the callbacks are untouched.
\<close>

theorem alloc_failure_no_mutation:
  "list_add_head list v NULL m = Inr (NULL, m) \<and>
   list_add list v NULL m = Inr (NULL, m) \<and>
   list_insert list old_node v after NULL m = Inr (NULL, m)"
  by (simp add: list_add_head_def list_add_def list_insert_def)

section \<open>Indexing\<close>

lemma index_next_seg:
  "dseg (nodes m) p zs NULL \<Longrightarrow>
   index_next k (hd (zs @ [NULL])) m = Inr (if k < length zs then zs ! k else NULL)"
proof (induction k arbitrary: zs p)
  case 0
  then show ?case by (cases zs) auto
next
  case (Suc k)
  show ?case
  proof (cases zs)
    case Nil
    then show ?thesis by simp
  next
    case (Cons z zs')
    with Suc.prems obtain nd where nd: "z \<noteq> NULL" "nodes m z = Some nd"
      "node_next nd = hd (zs' @ [NULL])" "dseg (nodes m) z zs' NULL"
      by (auto split: option.splits)
    show ?thesis using Cons nd Suc.IH[OF nd(4)] by (simp add: get_node_def)
  qed
qed

lemma index_prev_seg:
  "dseg (nodes m) NULL zs q \<Longrightarrow>
   index_prev k (last (NULL # zs)) m = Inr (if k < length zs then rev zs ! k else NULL)"
proof (induction k arbitrary: zs q)
  case 0
  then show ?case by (cases zs rule: rev_cases) auto
next
  case (Suc k)
  show ?case
  proof (cases zs rule: rev_cases)
    case Nil
    then show ?thesis by simp
  next
    case (snoc zs' z)
    with Suc.prems obtain nd where nd: "z \<noteq> NULL" "nodes m z = Some nd"
      "node_prev nd = last (NULL # zs')" "dseg (nodes m) NULL zs' z"
      by (auto simp: dseg_append split: option.splits)
    show ?thesis using snoc nd Suc.IH[OF nd(4)] by (simp add: get_node_def)
  qed
qed

lemma uint_of_int64: "uint (word_of_int k :: 64 word) = k mod 2 ^ 64"
  by (simp add: uint_word_of_int)

lemma nonneg_index_unat:
  fixes i :: "64 word"
  assumes "\<not> i <s 0"
  shows "unat i = nat (sint i)"
proof -
  have s: "0 \<le> sint i" using assms by (simp add: word_sless_alt)
  have "uint i = sint i mod 2 ^ 64" using uint_of_int64[of "sint i"] by simp
  moreover have "sint i < 2 ^ 64" using sint_lt[of i] by simp
  ultimately have "uint i = sint i" using s by simp
  then show ?thesis by (metis unat_eq_nat_uint)
qed

lemma neg_index_unat:
  fixes i :: "64 word"
  assumes "i <s 0"
  shows "unat ((- i) - 1) = nat (- sint i - 1)"
proof -
  have s: "sint i < 0" using assms by (simp add: word_sless_alt)
  have g: "- (2 ^ 63) \<le> sint i" using sint_ge[of i] by simp
  have "uint ((- i) - 1) = (- sint i - 1) mod 2 ^ 64"
    using uint_of_int64[of "- sint i - 1"] by simp
  also have "\<dots> = - sint i - 1" using s g by simp
  finally show ?thesis by (metis unat_eq_nat_uint)
qed

text \<open>
  Claim C6. On a list whose forward traversal is \<open>xs\<close> (and whose \<^verbatim>\<open>len\<close> is
  \<open>length xs\<close>), \<^verbatim>\<open>list_index\<close> with \<open>p\<close> in \<open>[0, len)\<close> returns the \<open>p\<close>-th node of
  the forward traversal, with \<open>p\<close> in \<open>[-len, -1]\<close> the \<open>(-p-1)\<close>-th node of the
  backward traversal, and \<^verbatim>\<open>NULL\<close> for every other \<open>p\<close>.
\<close>

theorem list_index_spec:
  assumes L: "is_list m list xs"
  shows "\<exists>l. get_list m list = Some l \<and> unat (len l) = length xs \<and>
           fwd_path (nodes m) (head l) xs \<and> bwd_path (nodes m) (tail l) (rev xs) \<and>
           list_index list p m =
             Inr (if 0 \<le> sint p \<and> sint p < int (length xs) then xs ! nat (sint p)
                  else if - int (length xs) \<le> sint p \<and> sint p \<le> - 1
                       then rev xs ! nat (- sint p - 1)
                  else NULL)"
proof -
  from L obtain l where l: "get_list m list = Some l" "head l = hd (xs @ [NULL])"
    "tail l = last (NULL # xs)" "dseg (nodes m) NULL xs NULL" by (rule is_listD)
  from L obtain l' where p: "get_list m list = Some l'" "fwd_path (nodes m) (head l') xs"
    "bwd_path (nodes m) (tail l') (rev xs)" "unat (len l') = length xs"
    by (rule is_list_paths)
  have ll: "l' = l" using l(1) p(1) by simp
  have "list_index list p m =
             Inr (if 0 \<le> sint p \<and> sint p < int (length xs) then xs ! nat (sint p)
                  else if - int (length xs) \<le> sint p \<and> sint p \<le> - 1
                       then rev xs ! nat (- sint p - 1)
                  else NULL)"
  proof (cases "p <s 0")
    case True
    then have s: "sint p < 0" by (simp add: word_sless_alt)
    have "list_index list p m = index_prev (nat (- sint p - 1)) (last (NULL # xs)) m"
      using True l by (simp add: list_index_def neg_index_unat)
    also have "\<dots> = Inr (if nat (- sint p - 1) < length xs then rev xs ! nat (- sint p - 1) else NULL)"
      by (rule index_prev_seg[OF l(4)])
    finally show ?thesis using s by (auto simp: nat_less_iff)
  next
    case False
    then have s: "0 \<le> sint p" by (simp add: word_sless_alt)
    have "list_index list p m = index_next (nat (sint p)) (hd (xs @ [NULL])) m"
      using False l by (simp add: list_index_def nonneg_index_unat)
    also have "\<dots> = Inr (if nat (sint p) < length xs then xs ! nat (sint p) else NULL)"
      by (rule index_next_seg[OF l(4)])
    finally show ?thesis using s by (auto simp: nat_less_iff)
  qed
  then show ?thesis using p ll by blast
qed

theorem list_index_spec_witness:
  "is_list demo3 100 [11, 12, 13] \<and> list_index 100 0 demo3 = Inr 11 \<and>
   list_index 100 2 demo3 = Inr 13 \<and> list_index 100 (- 1) demo3 = Inr 13 \<and>
   list_index 100 (- 3) demo3 = Inr 11 \<and> list_index 100 3 demo3 = Inr NULL \<and>
   list_index 100 (- 4) demo3 = Inr NULL"
  using demo3_is_list list_index_spec[OF demo3_is_list, of 0]
    list_index_spec[OF demo3_is_list, of 2] list_index_spec[OF demo3_is_list, of "- 1"]
    list_index_spec[OF demo3_is_list, of "- 3"] list_index_spec[OF demo3_is_list, of 3]
    list_index_spec[OF demo3_is_list, of "- 4"]
  by auto

section \<open>Rotation\<close>

lemma list_rotate_frame:
  assumes "list_rotate list m = Inr m'" "lists m list = Some l" "nodes m (tail l) = Some tn"
  shows "iters m' = iters m" "dup_log m' = dup_log m" "free_log m' = free_log m"
    "p \<noteq> list \<Longrightarrow> lists m' p = lists m p"
    "\<exists>l'. lists m' list = Some l' \<and> len l' = len l \<and> dup l' = dup l \<and> free l' = free l \<and>
       match l' = match l"
    "map_option node_value (nodes m' x) = map_option node_value (nodes m x)"
    "x \<notin> {head l, tail l, node_prev tn} \<Longrightarrow> nodes m' x = nodes m x"
  using assms
  by (auto simp: list_rotate_def get_list_def get_node_def put_list_def bind_def Let_def
      set_prev_def set_next_def split: if_splits option.splits)

lemma vals_of_cong:
  "(\<And>x. x \<in> set xs \<Longrightarrow> map_option node_value (h' x) = map_option node_value (h x)) \<Longrightarrow>
   vals_of h' xs = vals_of h xs"
  unfolding vals_of_def
  by (rule map_cong[OF refl]) (auto split: option.splits, (metis option.simps(3,8,9) option.inject option.map_disc_iff)+)

lemma rot1_mset: "mset (rot1 xs) = mset xs"
  by (cases xs rule: rot1_cases) auto

lemma vals_of_mset: "mset xs = mset ys \<Longrightarrow> mset (vals_of h xs) = mset (vals_of h ys)"
  unfolding vals_of_def by (metis mset_map)

lemma rot1_rotate1: "rot1 (rotate1 xs) = xs"
  by (cases xs) (auto simp: rot1_def)

lemma rot1_funpow_rotate: "(rot1 ^^ k) (rotate k xs) = xs"
  by (induction k) (simp_all add: funpow_swap1 rot1_rotate1)

lemma rot1_funpow_length: "(rot1 ^^ length xs) xs = xs"
  using rot1_funpow_rotate[of "length xs" xs] by simp

lemma list_rotate_step:
  assumes L: "is_list m list xs"
  obtains m' where "list_rotate list m = Inr m'" "is_list m' list (rot1 xs)"
    "vals_of (nodes m') ys = vals_of (nodes m) ys"
    "dom (nodes m') = dom (nodes m)" "lists m' list \<noteq> None"
    "\<And>p. p \<noteq> list \<Longrightarrow> lists m' p = lists m p" "iters m' = iters m"
proof -
  from list_rotate_rot1[OF L] obtain m' where m': "list_rotate list m = Inr m'"
    "is_list m' list (rot1 xs)" by blast
  from L obtain l where l: "lists m list = Some l" "tail l = last (NULL # xs)"
    "unat (len l) = length xs" by (rule is_listD)
  show ?thesis
  proof (cases "length xs \<le> 1")
    case True
    then have "m' = m" using list_rotate_small[OF L] m' by simp
    then show ?thesis using that[OF m'] l by simp
  next
    case False
    then have "xs \<noteq> []" by auto
    then have "tail l \<in> set xs" using l(2) by simp
    then obtain tn where tn: "nodes m (tail l) = Some tn"
      using is_list_nodes[OF L, of "tail l"] by auto
    note fr = list_rotate_frame[OF m'(1) l(1) tn]
    have v: "vals_of (nodes m') ys = vals_of (nodes m) ys"
      by (rule vals_of_cong) (rule fr(6))
    have "\<And>x. (nodes m' x = None) = (nodes m x = None)"
      using fr(6) by (metis option.map_disc_iff)
    then have d: "dom (nodes m') = dom (nodes m)" by (auto simp: dom_def)
    show ?thesis using that[OF m' v d _ fr(4) fr(1)] fr(5) by auto
  qed
qed

lemma rotate_n_ok:
  "is_list m list xs \<Longrightarrow>
   \<exists>m'. rotate_n k list m = Inr m' \<and> is_list m' list ((rot1 ^^ k) xs) \<and>
     vals_of (nodes m') ys = vals_of (nodes m) ys"
proof (induction k arbitrary: m xs)
  case 0
  then show ?case by simp
next
  case (Suc k)
  from Suc.prems obtain m1 where m1: "list_rotate list m = Inr m1" "is_list m1 list (rot1 xs)"
    "vals_of (nodes m1) ys = vals_of (nodes m) ys"
    by (rule list_rotate_step)
  from Suc.IH[OF m1(2)] m1(1,3) show ?case
    by (auto simp: bind_def funpow_swap1)
qed

text \<open>
  Claim C7. On a list of nodes \<open>xs\<close>, \<^verbatim>\<open>list_rotate\<close> changes nothing when there is
  at most one node; otherwise it succeeds and the list becomes the old tail followed by
  the other nodes in their order, with no allocation (no \<^verbatim>\<open>zmalloc\<close> answer is taken
  and the allocated addresses of all three stores are the same). Rotating
  \<open>length xs\<close> times gives back the nodes in their original order, with their values.
\<close>

theorem rotate_spec:
  assumes "is_list m list xs"
  shows "(if length xs \<le> 1 then list_rotate list m = Inr m
          else \<exists>m'. list_rotate list m = Inr m' \<and> is_list m' list (last xs # butlast xs) \<and>
                 dom (nodes m') = dom (nodes m) \<and> dom (lists m') = dom (lists m) \<and>
                 dom (iters m') = dom (iters m)) \<and>
         (\<exists>m''. rotate_n (length xs) list m = Inr m'' \<and> is_list m'' list xs \<and>
                 vals_of (nodes m'') xs = vals_of (nodes m) xs)"
proof -
  from assms obtain l where l: "lists m list = Some l" by (rule is_listD)
  from assms obtain m' where m': "list_rotate list m = Inr m'" "is_list m' list (rot1 xs)"
    "dom (nodes m') = dom (nodes m)" "lists m' list \<noteq> None"
    "\<And>p. p \<noteq> list \<Longrightarrow> lists m' p = lists m p" "iters m' = iters m"
    using list_rotate_step[OF assms, where ys = xs] by metis
  have "\<And>p. (lists m' p = None) = (lists m p = None)"
    using m'(4,5) l by (metis option.simps(3))
  then have dl: "dom (lists m') = dom (lists m)" by (auto simp: dom_def)
  have 1: "if length xs \<le> 1 then list_rotate list m = Inr m
          else \<exists>m'. list_rotate list m = Inr m' \<and> is_list m' list (last xs # butlast xs) \<and>
                 dom (nodes m') = dom (nodes m) \<and> dom (lists m') = dom (lists m) \<and>
                 dom (iters m') = dom (iters m)"
    using list_rotate_small[OF assms] m' dl by (auto simp: rot1_def)
  have 2: "\<exists>m''. rotate_n (length xs) list m = Inr m'' \<and> is_list m'' list xs \<and>
                 vals_of (nodes m'') xs = vals_of (nodes m) xs"
    using rotate_n_ok[OF assms, of "length xs" xs] by (simp add: rot1_funpow_length)
  show ?thesis using 1 2 by blast
qed

theorem rotate_spec_witness:
  "is_list demo3 100 [11, 12, 13] \<and>
   (\<exists>m'. list_rotate 100 demo3 = Inr m' \<and> is_list m' 100 [13, 11, 12]) \<and>
   (\<exists>m''. rotate_n (Suc (Suc (Suc 0))) 100 demo3 = Inr m'' \<and> is_list m'' 100 [11, 12, 13])"
  using demo3_is_list rotate_spec[OF demo3_is_list]
  by auto

text \<open>
  Claim C10. \<^verbatim>\<open>list_rotate\<close> leaves \<^verbatim>\<open>len\<close> and the callbacks \<^verbatim>\<open>dup\<close>, \<^verbatim>\<open>free\<close>,
  \<^verbatim>\<open>match\<close> as they are, keeps the value of every node and so the multiset of the
  values in the list, and changes no node other than the old head, the old tail and the
  old tail's predecessor; other lists, the iterators and the logs are untouched.
\<close>

theorem rotate_frame:
  assumes L: "is_list m list xs" and R: "list_rotate list m = Inr m'"
  shows "(\<exists>l l'. lists m list = Some l \<and> lists m' list = Some l' \<and> len l' = len l \<and>
            dup l' = dup l \<and> free l' = free l \<and> match l' = match l) \<and>
         is_list m' list (rot1 xs) \<and>
         mset (vals_of (nodes m') (rot1 xs)) = mset (vals_of (nodes m) xs) \<and>
         (\<forall>x. map_option node_value (nodes m' x) = map_option node_value (nodes m x)) \<and>
         (\<forall>x. x \<notin> {hd xs, last xs, last (butlast xs)} \<longrightarrow> nodes m' x = nodes m x) \<and>
         (\<forall>p. p \<noteq> list \<longrightarrow> lists m' p = lists m p) \<and>
         iters m' = iters m \<and> dup_log m' = dup_log m \<and> free_log m' = free_log m"
proof (cases xs rule: rot1_cases)
  case 1
  then have "m' = m" using list_rotate_small[OF L] R by simp
  moreover obtain l where "lists m list = Some l" using L by (rule is_listD)
  ultimately show ?thesis using L 1 by simp
next
  case (2 y ys t)
  from L obtain l where l: "lists m list = Some l" "head l = hd (xs @ [NULL])"
    "tail l = last (NULL # xs)" "dseg (nodes m) NULL xs NULL" by (rule is_listD)
  obtain tn where tn: "nodes m t = Some tn"
    using is_list_nodes[OF L, of t] 2 by auto
  obtain yn where yn: "nodes m y = Some yn"
    using is_list_nodes[OF L, of y] 2 by auto
  have hl: "head l = y" "tail l = t" using l 2 by simp_all
  have tp: "node_prev tn = last (y # ys)"
    using l(4) tn yn unfolding 2 by (simp add: dseg_append hd_append del: last.simps)
  note fr = list_rotate_frame[OF R l(1), unfolded hl, OF tn]
  have il: "is_list m' list (rot1 xs)" using list_rotate_rot1[OF L] R by auto
  have "vals_of (nodes m') (rot1 xs) = vals_of (nodes m) (rot1 xs)"
    by (rule vals_of_cong) (rule fr(6))
  then have ms: "mset (vals_of (nodes m') (rot1 xs)) = mset (vals_of (nodes m) xs)"
    using vals_of_mset[OF rot1_mset, of "nodes m" xs] by simp
  have s: "{hd xs, last xs, last (butlast xs)} = {y, t, node_prev tn}"
    using 2 tp by (simp add: butlast_append)
  show ?thesis using fr(1-3) fr(5) il ms l(1) fr(4) fr(6) fr(7) unfolding s 
    by auto
qed

theorem rotate_frame_witness:
  "is_list demo3 100 [11, 12, 13] \<and> list_rotate 100 demo3 = Inr demo4 \<and>
   is_list demo4 100 [13, 11, 12] \<and>
   mset (vals_of (nodes demo4) [13, 11, 12]) = mset (vals_of (nodes demo3) [11, 12, 13]) \<and>
   nodes demo4 14 = nodes demo3 14 \<and> iters demo4 = iters demo3"
  using demo3_is_list demo4_eval rotate_frame[OF demo3_is_list demo4_eval]
  by (simp add: rot1_def)

section \<open>Iteration and search\<close>

lemma is_list_iters_upd [simp]: "is_list (m\<lparr>iters := f\<rparr>) list xs = is_list m list xs"
  by (simp add: is_list_def get_list_def)

lemma get_list_iters_upd [simp]: "get_list (m\<lparr>iters := f\<rparr>) p = get_list m p"
  by (simp add: get_list_def)

lemma get_node_iters_upd [simp]: "get_node (m\<lparr>iters := f\<rparr>) p = get_node m p"
  by (simp add: get_node_def)

lemma list_free_iterator_ok:
  "it \<noteq> NULL \<Longrightarrow> iters m it = Some i \<Longrightarrow>
   list_free_iterator it m = Inr (m\<lparr>iters := (iters m)(it := None)\<rparr>)"
  by (simp add: list_free_iterator_def zfree_iter_def get_iter_def)

lemma list_next_null:
  "it \<noteq> NULL \<Longrightarrow> iters m it = Some i \<Longrightarrow> iter_next i = NULL \<Longrightarrow>
   list_next it m = Inr (NULL, m)"
  by (simp add: list_next_def get_iter_def)

lemma list_next_node:
  "it \<noteq> NULL \<Longrightarrow> iters m it = Some i \<Longrightarrow> iter_next i = x \<Longrightarrow> x \<noteq> NULL \<Longrightarrow>
   nodes m x = Some nd \<Longrightarrow>
   list_next it m = Inr (x, m\<lparr>iters := (iters m)(it \<mapsto>
      i\<lparr>iter_next := (if iter_direction i = START_HEAD then node_next nd else node_prev nd)\<rparr>)\<rparr>)"
  by (simp add: list_next_def get_iter_def get_node_def)

lemma search_loop_stop:
  assumes "list_next it m = Inr (NULL, m1)"
  shows "search_loop (Suc k) list key it m =
     bind (list_free_iterator it m1) (\<lambda>m2. Inr (NULL, m2))"
  using assms by (simp add: bind_def)

lemma search_loop_step:
  assumes "list_next it m = Inr (z, m1)" "z \<noteq> NULL" "get_list m1 list = Some l"
    "nodes m1 z = Some nd"
  shows "search_loop (Suc k) list key it m =
     (if key_matches l (node_value nd) key
      then bind (list_free_iterator it m1) (\<lambda>m2. Inr (z, m2))
      else search_loop k list key it m1)"
  using assms by (simp add: bind_def key_matches_def get_node_def split: option.splits)

lemma search_loop_seg:
  assumes "dseg (nodes m) p zs NULL" "get_list m list = Some l" "it \<noteq> NULL"
    "iters m it = Some \<lparr>iter_next = hd (zs @ [NULL]), iter_direction = START_HEAD\<rparr>"
    "length zs < fuel"
  shows "\<exists>m'. search_loop fuel list key it m =
     Inr (case find (node_matches m l key) zs of None \<Rightarrow> NULL | Some x \<Rightarrow> x, m') \<and>
     same_but_iter it m m' \<and> iters m' it = None"
  using assms
proof (induction zs arbitrary: fuel m p)
  case Nil
  then obtain k where k: "fuel = Suc k" by (cases fuel) auto
  have 1: "list_next it m = Inr (NULL, m)" using Nil by (intro list_next_null) auto
  have 2: "list_free_iterator it m = Inr (m\<lparr>iters := (iters m)(it := None)\<rparr>)"
    using Nil by (intro list_free_iterator_ok) auto
  show ?case unfolding k search_loop_stop[OF 1] 2
    by (simp add: bind_def same_but_iter_def)
next
  case (Cons z zs)
  then obtain k where k: "fuel = Suc k" by (cases fuel) auto
  from Cons.prems(1) obtain nd where nd: "z \<noteq> NULL" "nodes m z = Some nd"
    "node_next nd = hd (zs @ [NULL])" "dseg (nodes m) z zs NULL"
    by (auto split: option.splits)
  define m1 where "m1 = m\<lparr>iters := (iters m)(it \<mapsto>
     \<lparr>iter_next = hd (zs @ [NULL]), iter_direction = START_HEAD\<rparr>)\<rparr>"
  have n: "list_next it m = Inr (z, m1)"
    using Cons.prems(3,4) nd by (simp add: list_next_def get_iter_def get_node_def m1_def)
  have m1: "nodes m1 = nodes m" "lists m1 = lists m" "dup_log m1 = dup_log m"
    "free_log m1 = free_log m" "\<And>a. a \<noteq> it \<Longrightarrow> iters m1 a = iters m a"
    "iters m1 it = Some \<lparr>iter_next = hd (zs @ [NULL]), iter_direction = START_HEAD\<rparr>"
    "get_list m1 list = Some l"
    using Cons.prems(2) by (simp_all add: m1_def)
  have nm: "node_matches m1 l key = node_matches m l key"
    by (auto simp: node_matches_def fun_eq_iff m1)
  have st: "search_loop (Suc k) list key it m =
     (if key_matches l (node_value nd) key
      then bind (list_free_iterator it m1) (\<lambda>m2. Inr (z, m2))
      else search_loop k list key it m1)"
    using n nd m1 by (intro search_loop_step) auto
  have fz: "node_matches m l key z = key_matches l (node_value nd) key"
    using nd by (simp add: node_matches_def)
  show ?case
  proof (cases "key_matches l (node_value nd) key")
    case True
    have fi: "list_free_iterator it m1 = Inr (m1\<lparr>iters := (iters m1)(it := None)\<rparr>)"
      using Cons.prems(3) m1(6) by (intro list_free_iterator_ok) auto
    show ?thesis unfolding k st fi using True fz m1
      by (simp add: bind_def same_but_iter_def)
  next
    case False
    have "\<exists>m'. search_loop k list key it m1 =
      Inr (case find (node_matches m1 l key) zs of None \<Rightarrow> NULL | Some x \<Rightarrow> x, m') \<and>
      same_but_iter it m1 m' \<and> iters m' it = None"
      using Cons.prems k nd m1 by (intro Cons.IH[of m1 z]) simp_all
    then show ?thesis unfolding k st using False fz m1 nm
      by (auto simp: same_but_iter_def)
  qed
qed

lemma same_but_iter_eq:
  assumes "same_but_iter it m m'" "iters m it = None" "iters m' it = None"
  shows "m' = m"
proof -
  have "iters m' = iters m"
  proof (rule ext)
    fix a show "iters m' a = iters m a"
      using assms by (cases "a = it") (auto simp: same_but_iter_def)
  qed
  then show ?thesis using assms(1) by (simp add: same_but_iter_def)
qed

text \<open>
  The scan of \<^verbatim>\<open>list_search\<close> when \<^verbatim>\<open>zmalloc\<close> answers a fresh address for the
  iterator: on a list with nodes \<open>xs\<close> it returns the first node of \<open>xs\<close>, from the
  head, whose value matches the key (by the \<^verbatim>\<open>match\<close> callback when one is installed,
  by pointer comparison otherwise), or \<^verbatim>\<open>NULL\<close> when none does; the iterator is freed
  and the memory is as before.
\<close>

lemma list_search_allocated:
  assumes L: "is_list m list xs" and G: "get_list m list = Some l"
    and F: "fresh m iter_a" and fuel: "length xs < fuel"
  shows "list_search fuel list key iter_a m =
     Inr (case find (node_matches m l key) xs of None \<Rightarrow> NULL | Some x \<Rightarrow> x, m)"
proof -
  from L obtain l' where l: "get_list m list = Some l'" "head l' = hd (xs @ [NULL])"
    "dseg (nodes m) NULL xs NULL" by (rule is_listD)
  have ll: "l' = l" using l G by simp
  have a: "iter_a \<noteq> NULL" "iters m iter_a = None" using F by (auto simp: fresh_def)
  define m1 where "m1 = m\<lparr>iters := (iters m)(iter_a \<mapsto>
     \<lparr>iter_next = hd (xs @ [NULL]), iter_direction = START_HEAD\<rparr>)\<rparr>"
  have i: "list_iterator list START_HEAD iter_a m = Inr (iter_a, m1)"
    using a l ll by (simp add: list_iterator_def m1_def)
  have nm: "node_matches m1 l key = node_matches m l key"
    by (auto simp: node_matches_def fun_eq_iff m1_def)
  have "\<exists>m'. search_loop fuel list key iter_a m1 =
     Inr (case find (node_matches m1 l key) xs of None \<Rightarrow> NULL | Some x \<Rightarrow> x, m') \<and>
     same_but_iter iter_a m1 m' \<and> iters m' iter_a = None"
    using l a G fuel by (intro search_loop_seg[of m1 NULL]) (simp_all add: m1_def)
  then obtain m' where m': "search_loop fuel list key iter_a m1 =
     Inr (case find (node_matches m l key) xs of None \<Rightarrow> NULL | Some x \<Rightarrow> x, m')"
     "same_but_iter iter_a m1 m'" "iters m' iter_a = None"
    unfolding nm by blast
  have "same_but_iter iter_a m m'"
    using m'(2) by (simp add: same_but_iter_def m1_def)
  then have "m' = m" using a(2) m'(3) by (rule same_but_iter_eq)
  then show ?thesis using i m'(1) by (simp add: list_search_def bind_def)
qed

text \<open>
  Claim C8. \<^verbatim>\<open>list_next\<close> returns \<^verbatim>\<open>NULL\<close> when the cursor is null (the iterator is
  exhausted) and leaves the memory alone. When the cursor is on a node \<open>x\<close> of a list,
  it returns \<open>x\<close> and has already moved the cursor to \<open>x\<close>'s \<^verbatim>\<open>next\<close> (forward) or
  \<^verbatim>\<open>prev\<close> (backward) neighbour; removing \<open>x\<close> from the list then frees \<open>x\<close> and the
  following \<^verbatim>\<open>list_next\<close> still returns that neighbour. The concrete instance
  below is a forward iterator over the values 1, 2, 3.
\<close>

theorem advance_then_remove:
  "(it \<noteq> NULL \<and> iters m it = Some i \<and> iter_next i = NULL \<longrightarrow>
      list_next it m = Inr (NULL, m)) \<and>
   (it \<noteq> NULL \<and> iters m it = Some i \<and> iter_next i = x \<and> is_list m list (as @ x # bs) \<longrightarrow>
      (\<exists>m1 m2 m3.
         list_next it m = Inr (x, m1) \<and>
         iters m1 it = Some (i\<lparr>iter_next :=
           (if iter_direction i = START_HEAD then hd (bs @ [NULL]) else last (NULL # as))\<rparr>) \<and>
         nodes m1 = nodes m \<and> lists m1 = lists m \<and>
         list_remove list x m1 = Inr m2 \<and> is_list m2 list (as @ bs) \<and> nodes m2 x = None \<and>
         list_next it m2 =
           Inr (if iter_direction i = START_HEAD then hd (bs @ [NULL]) else last (NULL # as),
                m3)))"
proof (intro conjI impI)
  assume "it \<noteq> NULL \<and> iters m it = Some i \<and> iter_next i = NULL"
  then show "list_next it m = Inr (NULL, m)" by (auto intro: list_next_null)
next
  assume A: "it \<noteq> NULL \<and> iters m it = Some i \<and> iter_next i = x \<and> is_list m list (as @ x # bs)"
  then have L: "is_list m list (as @ x # bs)" and I: "it \<noteq> NULL" "iters m it = Some i"
    "iter_next i = x" by auto
  let ?nxt = "if iter_direction i = START_HEAD then hd (bs @ [NULL]) else last (NULL # as)"
  from L obtain l where l: "distinct (as @ x # bs)" "dseg (nodes m) NULL (as @ x # bs) NULL"
    by (rule is_listD)
  obtain nd where nd: "x \<noteq> NULL" "nodes m x = Some nd"
    using is_list_nodes[OF L, of x] by auto
  have lk: "node_next nd = hd (bs @ [NULL])" "node_prev nd = last (NULL # as)"
    using l(2) nd by (simp_all add: dseg_append)
  define m1 where "m1 = m\<lparr>iters := (iters m)(it \<mapsto> i\<lparr>iter_next := ?nxt\<rparr>)\<rparr>"
  have n1: "list_next it m = Inr (x, m1)"
    using list_next_node[OF I nd] lk by (simp add: m1_def)
  have L1: "is_list m1 list (as @ x # bs)" using L by (simp add: m1_def)
  from list_remove_ok[OF L1] obtain m2 where m2: "list_remove list x m1 = Inr m2"
    "is_list m2 list (as @ bs)" by blast
  have i2: "iters m2 = iters m1" using list_remove_iters[OF m2(1)] .
  then have i2': "iters m2 it = Some (i\<lparr>iter_next := ?nxt\<rparr>)" by (simp add: m1_def)
  have nx: "nodes m2 x = None"
    using m2(1) nd I
    by (auto simp: list_remove_def get_list_def get_node_def m1_def bind_def set_next_def
        set_prev_def put_list_def zfree_node_def call_free_def split: option.splits if_splits)
  have "\<exists>m3. list_next it m2 = Inr (?nxt, m3)"
  proof (cases "?nxt = NULL")
    case True
    then show ?thesis using list_next_null[OF I(1) i2'] by simp
  next
    case False
    then have "?nxt \<in> set (as @ bs)"
      by (cases bs; cases as rule: rev_cases) (auto split: if_splits)
    then obtain nd' where "nodes m2 ?nxt = Some nd'"
      using is_list_nodes[OF m2(2), of ?nxt] by auto
    then show ?thesis using list_next_node[OF I(1) i2' _ False, of nd'] by simp
  qed
  then show "\<exists>m1 m2 m3.
         list_next it m = Inr (x, m1) \<and>
         iters m1 it = Some (i\<lparr>iter_next := ?nxt\<rparr>) \<and>
         nodes m1 = nodes m \<and> lists m1 = lists m \<and>
         list_remove list x m1 = Inr m2 \<and> is_list m2 list (as @ bs) \<and> nodes m2 x = None \<and>
         list_next it m2 = Inr (?nxt, m3)"
    using n1 m2 nx by (auto simp: m1_def)
qed

lemmas iter_eval_defs = demo_it_def demo_end_def demo_match_def list_iterator_def
  list_set_match_method_def START_HEAD_def

lemma demo_it_iter: "iters demo_it 200 = Some \<lparr>iter_next = 11, iter_direction = START_HEAD\<rparr>"
  by (simp add: iter_eval_defs demo_defs eval_defs)

lemma demo_it_is_list: "is_list demo_it 100 ([] @ 11 # [12, 13])"
  by (simp add: iter_eval_defs demo_defs eval_defs is_list_def)

lemma demo_it_vals: "vals_of (nodes demo_it) [11, 12, 13] = [1, 2, 3]"
  by (simp add: iter_eval_defs demo_defs eval_defs vals_of_def)

lemma demo_end_iter: "iters demo_end 200 = Some \<lparr>iter_next = NULL, iter_direction = START_HEAD\<rparr>"
  by (simp add: iter_eval_defs demo_defs eval_defs)

theorem advance_then_remove_witness:
  "iters demo_end 200 = Some \<lparr>iter_next = NULL, iter_direction = START_HEAD\<rparr> \<and>
   list_next 200 demo_end = Inr (NULL, demo_end) \<and>
   iters demo_it 200 = Some \<lparr>iter_next = 11, iter_direction = START_HEAD\<rparr> \<and>
   is_list demo_it 100 [11, 12, 13] \<and> vals_of (nodes demo_it) [11, 12, 13] = [1, 2, 3] \<and>
   (\<exists>m1 m2 m3. list_next 200 demo_it = Inr (11, m1) \<and>
      iters m1 200 = Some \<lparr>iter_next = 12, iter_direction = START_HEAD\<rparr> \<and>
      list_remove 100 11 m1 = Inr m2 \<and> is_list m2 100 [12, 13] \<and>
      list_next 200 m2 = Inr (12, m3))"
proof -
  have 1: "list_next 200 demo_end = Inr (NULL, demo_end)"
    using advance_then_remove[of 200 demo_end
        "\<lparr>iter_next = NULL, iter_direction = START_HEAD\<rparr>"] demo_end_iter
    by simp
  have 2: "\<exists>m1 m2 m3. list_next 200 demo_it = Inr (11, m1) \<and>
      iters m1 200 = Some \<lparr>iter_next = 12, iter_direction = START_HEAD\<rparr> \<and>
      list_remove 100 11 m1 = Inr m2 \<and> is_list m2 100 [12, 13] \<and>
      list_next 200 m2 = Inr (12, m3)"
    using advance_then_remove[of 200 demo_it
        "\<lparr>iter_next = 11, iter_direction = START_HEAD\<rparr>" 11 100 "[]" "[12, 13]"]
      demo_it_iter demo_it_is_list
    by auto
  show ?thesis using 1 2 demo_end_iter demo_it_iter demo_it_is_list demo_it_vals by simp
qed

lemma demo3_list: "get_list demo3 100 =
   Some \<lparr>head = 11, tail = 13, dup = None, free = None, match = None, len = 3\<rparr>"
  by (simp add: demo_defs eval_defs)

lemma demo_match_list: "get_list demo_match 100 =
   Some \<lparr>head = 11, tail = 13, dup = None, free = None,
     match = Some (\<lambda>v k. if v = k + 1 then 1 else 0), len = 3\<rparr>"
  by (simp add: iter_eval_defs demo_defs eval_defs)

lemma demo_match_is_list: "is_list demo_match 100 [11, 12, 13]"
  by (simp add: iter_eval_defs demo_defs eval_defs is_list_def)

lemma demo3_fresh: "fresh demo3 200"
  by (simp add: demo_defs eval_defs)

lemma demo_match_fresh: "fresh demo_match 200"
  by (simp add: iter_eval_defs demo_defs eval_defs)

lemma demo3_nodes: "nodes demo3 11 = Some \<lparr>node_prev = NULL, node_next = 12, node_value = 1\<rparr>"
  "nodes demo3 12 = Some \<lparr>node_prev = 11, node_next = 13, node_value = 2\<rparr>"
  "nodes demo3 13 = Some \<lparr>node_prev = 12, node_next = NULL, node_value = 3\<rparr>"
  by (simp_all add: demo_defs eval_defs)

lemma demo_match_nodes: "nodes demo_match = nodes demo3"
  by (simp add: iter_eval_defs demo3_list put_list_def mem_of'_def)

lemma list_search_demo:
  "list_search 4 100 2 200 demo3 = Inr (12, demo3) \<and>
   list_search 4 100 9 200 demo3 = Inr (NULL, demo3) \<and>
   list_search 4 100 1 200 demo_match = Inr (12, demo_match)"
  using list_search_allocated[OF demo3_is_list demo3_list demo3_fresh, of 4 2]
    list_search_allocated[OF demo3_is_list demo3_list demo3_fresh, of 4 9]
    list_search_allocated[OF demo_match_is_list demo_match_list demo_match_fresh, of 4 1]
  by (simp add: node_matches_def key_matches_def demo3_nodes demo_match_nodes)

text \<open>
  Claim C4 says that \<^verbatim>\<open>list_iterator\<close> cannot fail. When \<^verbatim>\<open>zmalloc\<close> fails it
  returns \<^verbatim>\<open>NULL\<close>: no iterator is made.
\<close>

theorem list_iterator_alloc_failure:
  "list_iterator list direction NULL m = Inr (NULL, m)"
  by (simp add: list_iterator_def)

text \<open>
  Claim C5 says that no operation performs an invalid access when an allocation fails.
  \<^verbatim>\<open>list_search\<close> and \<^verbatim>\<open>list_clone\<close> do not check the iterator they allocate: when
  that allocation fails, the first \<^verbatim>\<open>list_next\<close> reads through the null pointer.
\<close>

theorem iterator_alloc_failure_faults:
  "list_search (Suc k) list key NULL m = Inl Fault \<and>
   list_clone (Suc k) orig 101 NULL as m = Inl Fault"
  by (simp add: list_search_def list_clone_def list_create_def list_iterator_def bind_def
      list_next_def get_iter_def get_list_def put_list_def split: option.splits)

text \<open>
  Claim C9 says that \<^verbatim>\<open>list_search\<close> returns the first matching node for every list
  and key. The list at address 100 holds the values 1, 2, 3 in the nodes 11, 12, 13, so
  the first node matching the key 2 is node 12, and the search returns it when the
  iterator is allocated (at address 200). When the \<^verbatim>\<open>zmalloc\<close> call inside
  \<^verbatim>\<open>list_iterator\<close> fails, the same search reads through the null iterator instead of
  returning node 12; \<^verbatim>\<open>list_search\<close> never checks the iterator it asks for, although
  \<^verbatim>\<open>list.h\<close> documents \<^verbatim>\<open>list_iterator\<close> as a function that cannot fail. The same
  holds with a \<^verbatim>\<open>match\<close> callback installed.
\<close>

theorem list_search_alloc_failure:
  "is_list demo3 100 [11, 12, 13] \<and> vals_of (nodes demo3) [11, 12, 13] = [1, 2, 3] \<and>
   list_search 4 100 2 200 demo3 = Inr (12, demo3) \<and>
   list_search 4 100 2 NULL demo3 = Inl Fault \<and>
   is_list demo_match 100 [11, 12, 13] \<and>
   list_search 4 100 1 200 demo_match = Inr (12, demo_match) \<and>
   list_search 4 100 1 NULL demo_match = Inl Fault"
proof -
  have "list_search (Suc k) 100 key NULL m = Inl Fault" for k key m
    by (simp add: list_search_def list_iterator_def bind_def list_next_def get_iter_def
        split: option.splits)
  from this[of 3] have "list_search 4 100 key NULL m = Inl Fault" for key m
    by simp
  then show ?thesis
    using list_search_demo demo3_is_list demo_match_is_list
    by (simp add: vals_of_def demo3_nodes)
qed

section \<open>Cloning: the failure paths\<close>








lemmas clone_eval_defs = demo_dup_def demo_dup_free_def demo_free_def list_set_clone_method_def
  list_set_free_method_def











text \<open>
  The node allocation failing right after a successful \<^verbatim>\<open>dup\<close>: the duplicate 7 is in
  no node of the copy, and \<^verbatim>\<open>list_free(copy)\<close> does not release it although a
  \<^verbatim>\<open>free\<close> callback is installed.
\<close>

lemma clone_node_alloc_failure_leak:
  "\<exists>m'. list_clone (Suc (Suc 0)) 100 101 200 [] demo_dup_free = Inr (NULL, m') \<and>
     dup_log m' = [7] \<and> free_log m' = []"
  by (simp add: clone_eval_defs demo_defs eval_defs list_clone_def list_iterator_def
      list_next_def get_iter_def clone_fail_def list_free_def list_free_iterator_def
      zfree_iter_def zfree_list_def START_HEAD_def)

end
